theory Spec2Isabelle
  imports Complex_Main
begin

section \<open>Tensors and the tensor primitives used by the inference network\<close>

text \<open>
  The source works on float tensors.  A vector is a list of numbers, a matrix a list of
  rows, a stack of \<open>T\<close> blocks a list of matrices and a batch a list of such stacks.
  Arithmetic is exact real arithmetic: rounding is not modelled.
\<close>

type_synonym vec = "real list"
type_synonym mat = "real list list"

datatype error =
    InvalidArgumentError
  | NumericalError
  | ShapeError
  | InvalidConfigurationError

definition dot :: "vec \<Rightarrow> vec \<Rightarrow> real" where
  "dot u v = sum_list (map2 (*) u v)"

definition mat_transpose :: "mat \<Rightarrow> mat" where
  "mat_transpose M =
     (case M of [] \<Rightarrow> [] | r # _ \<Rightarrow> map (\<lambda>j. map (\<lambda>row. row ! j) M) [0..<length r])"

definition matmul :: "mat \<Rightarrow> mat \<Rightarrow> mat" where
  "matmul X Y = map (\<lambda>r. map (dot r) (mat_transpose Y)) X"

definition mat_add :: "mat \<Rightarrow> mat \<Rightarrow> mat" where
  "mat_add X Y = map2 (map2 (+)) X Y"

definition mat_neg :: "mat \<Rightarrow> mat" where
  "mat_neg X = map (map uminus) X"

definition mat_sub :: "mat \<Rightarrow> mat \<Rightarrow> mat" where
  "mat_sub X Y = map2 (map2 (-)) X Y"

definition mat_scale :: "real \<Rightarrow> mat \<Rightarrow> mat" where
  "mat_scale a X = map (map ((*) a)) X"

definition matvec :: "mat \<Rightarrow> vec \<Rightarrow> vec" where
  "matvec M v = map (\<lambda>row. sum_list (map2 (*) row v)) M"

definition vec_add :: "vec \<Rightarrow> vec \<Rightarrow> vec" where
  "vec_add u v = map2 (+) u v"

definition vec_sub :: "vec \<Rightarrow> vec \<Rightarrow> vec" where
  "vec_sub u v = map2 (-) u v"

definition eye :: "nat \<Rightarrow> mat" where
  "eye n = map (\<lambda>i. map (\<lambda>j. if i = j then 1 else 0) [0..<n]) [0..<n]"

definition is_mat :: "nat \<Rightarrow> nat \<Rightarrow> mat \<Rightarrow> bool" where
  "is_mat n m M \<longleftrightarrow> length M = n \<and> list_all (\<lambda>row. length row = m) M"

text \<open>
  The dense linear-algebra kernels of the tensor library are not part of the repository;
  they are parameters of the model.  \<open>cholesky\<close> fails (\<open>None\<close>) on a matrix it cannot
  factor; \<open>matrix_triangular_solve matrix rhs lower adjoint\<close> and \<open>matrix_inverse\<close> follow
  the signatures of the library operations of the same names.
\<close>

record linalg =
  cholesky :: "mat \<Rightarrow> mat option"
  matrix_triangular_solve :: "mat \<Rightarrow> mat \<Rightarrow> bool \<Rightarrow> bool \<Rightarrow> mat"
  matrix_inverse :: "mat \<Rightarrow> mat"

text \<open>
  \<open>tf.tile(tf.expand_dims(M, 0), [n, 1, 1])\<close>: \<open>n\<close> copies of the block \<open>M\<close>.  The
  multiple is a Python integer; a negative one is rejected by the tile operation.
\<close>

definition tile :: "int \<Rightarrow> mat \<Rightarrow> error + mat list" where
  "tile n M = (if n < 0 then Inl InvalidArgumentError else Inr (replicate (nat n) M))"

text \<open>
  \<open>tf.add\<close> of the static stack \<open>[T, d, d]\<close> and one batch element of the data stack:
  the time axes have to agree.
\<close>

definition add_blocks :: "mat list \<Rightarrow> mat list \<Rightarrow> error + mat list" where
  "add_blocks X Y =
     (if length X = length Y then Inr (map2 mat_add X Y) else Inl ShapeError)"

section \<open>Precision assembly (\<open>SmoothingLDS.build_graph\<close>, scope \<open>precision_matrix\<close>)\<close>

definition c_psi_inv :: "mat list list \<Rightarrow> mat list list" where
  "c_psi_inv r_psi_sqrt = map (map (\<lambda>r. matmul r (mat_transpose r))) r_psi_sqrt"

definition AQ0invA_Qinv :: "mat \<Rightarrow> mat \<Rightarrow> mat \<Rightarrow> mat" where
  "AQ0invA_Qinv A Q0inv Qinv = mat_add (matmul (matmul A Q0inv) (mat_transpose A)) Qinv"

definition AQinvA_Qinv :: "mat \<Rightarrow> mat \<Rightarrow> mat" where
  "AQinvA_Qinv A Qinv = mat_add (matmul (matmul A Qinv) (mat_transpose A)) Qinv"

definition AQ0inv :: "mat \<Rightarrow> mat \<Rightarrow> mat" where
  "AQ0inv A Q0inv = matmul (mat_neg A) Q0inv"

definition AQinv :: "mat \<Rightarrow> mat \<Rightarrow> mat" where
  "AQinv A Qinv = matmul (mat_neg A) Qinv"

definition Sinv_diag_static :: "int \<Rightarrow> mat \<Rightarrow> mat \<Rightarrow> mat \<Rightarrow> error + mat list" where
  "Sinv_diag_static num_time_pts A Q0inv Qinv =
     (case tile (num_time_pts - 2) (AQinvA_Qinv A Qinv) of
        Inl e \<Rightarrow> Inl e
      | Inr tiled \<Rightarrow> Inr ([Q0inv, AQ0invA_Qinv A Q0inv Qinv] @ tiled))"

text \<open>
  \<open>self.Sinv_diag\<close>, of shape \<open>[batch, T, d, d]\<close>: the static stack is added to every
  batch element of \<open>c_psi_inv\<close>.
\<close>

fun traverse :: "('a \<Rightarrow> error + 'b) \<Rightarrow> 'a list \<Rightarrow> error + 'b list" where
  "traverse f [] = Inr []"
| "traverse f (x # xs) =
     (case f x of
        Inl e \<Rightarrow> Inl e
      | Inr y \<Rightarrow> (case traverse f xs of Inl e \<Rightarrow> Inl e | Inr ys \<Rightarrow> Inr (y # ys)))"

definition Sinv_diag ::
  "int \<Rightarrow> mat \<Rightarrow> mat \<Rightarrow> mat \<Rightarrow> mat list list \<Rightarrow> error + mat list list" where
  "Sinv_diag num_time_pts A Q0inv Qinv c =
     (case Sinv_diag_static num_time_pts A Q0inv Qinv of
        Inl e \<Rightarrow> Inl e
      | Inr static \<Rightarrow> traverse (add_blocks static) c)"

definition Sinv_ldiag0 :: "int \<Rightarrow> mat \<Rightarrow> mat \<Rightarrow> mat \<Rightarrow> error + mat list" where
  "Sinv_ldiag0 num_time_pts A Q0inv Qinv =
     (case tile (num_time_pts - 2) (AQinv A Qinv) of
        Inl e \<Rightarrow> Inl e
      | Inr tiled \<Rightarrow> Inr ([AQ0inv A Q0inv] @ tiled))"


section \<open>Block-tridiagonal Cholesky factorisation and block-triangular solves\<close>

text \<open>
  Modelled from the spec: \<open>netlds.chol_utils\<close> (\<open>blk_tridiag_chol\<close>, \<open>blk_chol_inv\<close>) is
  imported by the source but is not among the source files.  \<open>blk_tridiag_chol\<close> follows
  the factoriser of the specification:
  \<open>C_1 = cholesky(D_1)\<close>, and for \<open>t = 2..T\<close>,
  \<open>E_(t-1) = L_(t-1) (C_(t-1)^T)^-1\<close> by a triangular solve and
  \<open>C_t = cholesky(D_t - E_(t-1) E_(t-1)^T)\<close>.  An empty sequence or a zero block size is an
  \<open>InvalidConfigurationError\<close>, mismatched sequence lengths or block shapes a
  \<open>ShapeError\<close>, a failed dense factorisation a \<open>NumericalError\<close>.
\<close>

fun chol_rec :: "linalg \<Rightarrow> mat \<Rightarrow> mat list \<Rightarrow> mat list \<Rightarrow> error + mat list \<times> mat list" where
  "chol_rec la M [] Ls =
     (case cholesky la M of
        None \<Rightarrow> Inl NumericalError
      | Some C \<Rightarrow> Inr ([C], []))"
| "chol_rec la M (D # Ds) Ls =
     (case cholesky la M of
        None \<Rightarrow> Inl NumericalError
      | Some C \<Rightarrow>
          (case Ls of
             [] \<Rightarrow> Inl ShapeError
           | L # Ls' \<Rightarrow>
               (let E = mat_transpose (matrix_triangular_solve la C (mat_transpose L) True False)
                in case chol_rec la (mat_sub D (matmul E (mat_transpose E))) Ds Ls' of
                     Inl e \<Rightarrow> Inl e
                   | Inr (Cs, Es) \<Rightarrow> Inr (C # Cs, E # Es))))"

definition blk_tridiag_chol :: "linalg \<Rightarrow> mat list \<Rightarrow> mat list \<Rightarrow> error + mat list \<times> mat list" where
  "blk_tridiag_chol la D L =
     (case D of
        [] \<Rightarrow> Inl InvalidConfigurationError
      | D1 # Ds \<Rightarrow>
          if D1 = [] then Inl InvalidConfigurationError
          else if length L \<noteq> length Ds
                  \<or> \<not> list_all (is_mat (length D1) (length D1)) (D @ L)
          then Inl ShapeError
          else chol_rec la D1 Ds L)"

text \<open>
  Modelled from the spec: the block-triangular solver.  With \<open>lower=True, transpose=False\<close>
  it is the forward substitution \<open>X_1 = C_1^-1 B_1\<close>,
  \<open>X_t = C_t^-1 (B_t - E_(t-1) X_(t-1))\<close>; with \<open>lower=False, transpose=True\<close> the backward
  substitution \<open>X_T = C_T^-T B_T\<close>, \<open>X_t = C_t^-T (B_t - E_t^T X_(t+1))\<close>.  The
  specification describes no other combination of the two flags.  The right-hand sides
  are the single columns (\<open>k = 1\<close>) that the source passes: \<open>ia\<close> and \<open>samples_z\<close> have
  shape \<open>[T, d]\<close>.
\<close>

definition tri_solve :: "linalg \<Rightarrow> mat \<Rightarrow> vec \<Rightarrow> bool \<Rightarrow> vec" where
  "tri_solve la C b adjoint =
     concat (matrix_triangular_solve la C (map (\<lambda>x. [x]) b) True adjoint)"

fun forward_rec :: "linalg \<Rightarrow> vec \<Rightarrow> mat list \<Rightarrow> mat list \<Rightarrow> vec list \<Rightarrow> vec list" where
  "forward_rec la Xp (C # Cs) (E # Es) (B # Bs) =
     (let X = tri_solve la C (vec_sub B (matvec E Xp)) False
      in X # forward_rec la X Cs Es Bs)"
| "forward_rec la Xp Cs Es Bs = []"

fun forward_subst :: "linalg \<Rightarrow> mat list \<Rightarrow> mat list \<Rightarrow> vec list \<Rightarrow> vec list" where
  "forward_subst la (C # Cs) Es (B # Bs) =
     (let X = tri_solve la C B False in X # forward_rec la X Cs Es Bs)"
| "forward_subst la Cs Es Bs = []"

fun backward_subst :: "linalg \<Rightarrow> mat list \<Rightarrow> mat list \<Rightarrow> vec list \<Rightarrow> vec list" where
  "backward_subst la (C # C' # Cs) (E # Es) (B # B' # Bs) =
     (case backward_subst la (C' # Cs) Es (B' # Bs) of
        [] \<Rightarrow> []
      | X # Xs \<Rightarrow> tri_solve la C (vec_sub B (matvec (mat_transpose E) X)) True # X # Xs)"
| "backward_subst la [C] Es [B] = [tri_solve la C B True]"
| "backward_subst la Cs Es Bs = []"

definition solve_shapes_ok :: "mat list \<Rightarrow> mat list \<Rightarrow> vec list \<Rightarrow> bool" where
  "solve_shapes_ok C E B \<longleftrightarrow>
     length E + 1 = length C \<and> length B = length C
     \<and> list_all (is_mat (length (hd C)) (length (hd C))) (C @ E)
     \<and> list_all (\<lambda>b. length b = length (hd C)) B"

fun blk_chol_inv ::
  "linalg \<Rightarrow> mat list \<Rightarrow> mat list \<Rightarrow> vec list \<Rightarrow> bool \<Rightarrow> bool \<Rightarrow> error + vec list" where
  "blk_chol_inv la C E B True False =
     (if C = [] \<or> hd C = [] then Inl InvalidConfigurationError
      else if \<not> solve_shapes_ok C E B then Inl ShapeError
      else Inr (forward_subst la C E B))"
| "blk_chol_inv la C E B False True =
     (if C = [] \<or> hd C = [] then Inl InvalidConfigurationError
      else if \<not> solve_shapes_ok C E B then Inl ShapeError
      else Inr (backward_subst la C E B))"


section \<open>Dynamics parameters\<close>

text \<open>
  The learnable variables and the tensors derived from them.  \<open>gen_params\<close> is the
  dictionary of initial values; a derived tensor is a node of the graph and is
  recomputed from the current value of the variables.
\<close>

record lds_vars =
  z0_mean :: mat
  A :: mat
  Q_sqrt :: mat
  Q0_sqrt :: mat

record lds_prior =
  Q0 :: mat
  Q :: mat
  Q0inv :: mat
  Qinv :: mat

definition get_variable :: "(string \<rightharpoonup> mat) \<Rightarrow> string \<Rightarrow> mat \<Rightarrow> mat" where
  "get_variable gen_params name dflt = (case gen_params name of Some v \<Rightarrow> v | None \<Rightarrow> dflt)"

text \<open>\<open>LDS.initialize_prior_vars\<close> (generative model).\<close>

definition LDS_variables :: "nat \<Rightarrow> (string \<rightharpoonup> mat) \<Rightarrow> lds_vars" where
  "LDS_variables dim_latent gen_params =
     \<lparr> z0_mean = get_variable gen_params ''z0_mean'' [replicate dim_latent 0],
       A = get_variable gen_params ''A'' (mat_scale (1/2) (eye dim_latent)),
       Q_sqrt = get_variable gen_params ''Q_sqrt'' (mat_scale (1/10) (eye dim_latent)),
       Q0_sqrt = get_variable gen_params ''Q0_sqrt'' (mat_scale (1/10) (eye dim_latent)) \<rparr>"

definition LDS_prior :: "linalg \<Rightarrow> nat \<Rightarrow> lds_vars \<Rightarrow> lds_prior" where
  "LDS_prior la dim_latent vs =
     (let diag = mat_scale (1/1000000) (eye dim_latent);
          Q0' = mat_add (matmul (Q0_sqrt vs) (mat_transpose (Q0_sqrt vs))) diag;
          Q' = mat_add (matmul (Q_sqrt vs) (mat_transpose (Q_sqrt vs))) diag
      in \<lparr> Q0 = Q0', Q = Q', Q0inv = matrix_inverse la Q0', Qinv = matrix_inverse la Q' \<rparr>)"

text \<open>\<open>LDSCoupled.initialize_prior_vars\<close> (generative model coupled to the posterior).\<close>

definition LDSCoupled_variables :: "nat \<Rightarrow> (string \<rightharpoonup> mat) \<Rightarrow> lds_vars" where
  "LDSCoupled_variables dim_latent gen_params =
     \<lparr> z0_mean = get_variable gen_params ''z0_mean'' [replicate dim_latent 0],
       A = get_variable gen_params ''A'' (mat_scale (1/2) (eye dim_latent)),
       Q_sqrt = get_variable gen_params ''Q_sqrt'' (eye dim_latent),
       Q0_sqrt = get_variable gen_params ''Q0_sqrt'' (eye dim_latent) \<rparr>"

definition LDSCoupled_prior :: "linalg \<Rightarrow> lds_vars \<Rightarrow> lds_prior" where
  "LDSCoupled_prior la vs =
     (let Q0' = matmul (Q0_sqrt vs) (mat_transpose (Q0_sqrt vs));
          Q' = matmul (Q_sqrt vs) (mat_transpose (Q_sqrt vs))
      in \<lparr> Q0 = Q0', Q = Q', Q0inv = matrix_inverse la Q0', Qinv = matrix_inverse la Q' \<rparr>)"

text \<open>
  \<open>SmoothingLDS._initialize_model_vars\<close>: \<open>self.gen_params\<close> is set to the empty
  dictionary first, so every variable starts from its default.
\<close>

definition SmoothingLDS_variables :: "nat \<Rightarrow> lds_vars" where
  "SmoothingLDS_variables dim_latent =
     (let gen_params = Map.empty
      in \<lparr> z0_mean = get_variable gen_params ''z0_mean'' [replicate dim_latent 0],
            A = get_variable gen_params ''A'' (mat_scale (1/2) (eye dim_latent)),
            Q_sqrt = get_variable gen_params ''Q_sqrt'' (eye dim_latent),
            Q0_sqrt = get_variable gen_params ''Q0_sqrt'' (eye dim_latent) \<rparr>)"

definition SmoothingLDS_prior :: "linalg \<Rightarrow> lds_vars \<Rightarrow> lds_prior" where
  "SmoothingLDS_prior la vs =
     (let Q0' = matmul (Q0_sqrt vs) (mat_transpose (Q0_sqrt vs));
          Q' = matmul (Q_sqrt vs) (mat_transpose (Q_sqrt vs))
      in \<lparr> Q0 = Q0', Q = Q', Q0inv = matrix_inverse la Q0', Qinv = matrix_inverse la Q' \<rparr>)"

section \<open>The smoothing posterior (\<open>SmoothingLDS\<close>)\<close>

record smoothing_lds =
  dim_input :: int
  dim_latent :: int
  rng :: int
  num_time_pts :: int

text \<open>\<open>SmoothingLDS.__init__\<close>: the arguments are stored as they come.\<close>

definition SmoothingLDS_init :: "int \<Rightarrow> int \<Rightarrow> int \<Rightarrow> int \<Rightarrow> smoothing_lds" where
  "SmoothingLDS_init dim_input' dim_latent' rng' num_time_pts' =
     \<lparr> dim_input = dim_input', dim_latent = dim_latent', rng = rng',
       num_time_pts = num_time_pts' \<rparr>"

text \<open>
  The encoder is outside the model: its outputs \<open>m_psi\<close> (shape \<open>[batch, T, d]\<close>) and
  \<open>r_psi_sqrt\<close> (shape \<open>[batch, T, d, d]\<close>) are inputs.  \<open>chol_decomp_Sinv\<close> scans
  \<open>blk_tridiag_chol\<close> over the batch; component \<open>[0]\<close> of the result holds the diagonal
  blocks of the factor, component \<open>[1]\<close> the sub-diagonal ones.
\<close>

definition chol_decomp_Sinv ::
  "linalg \<Rightarrow> smoothing_lds \<Rightarrow> lds_vars \<Rightarrow> lds_prior \<Rightarrow> mat list list
     \<Rightarrow> error + (mat list \<times> mat list) list" where
  "chol_decomp_Sinv la self vs pr r_psi_sqrt =
     (case Sinv_diag (num_time_pts self) (A vs) (Q0inv pr) (Qinv pr) (c_psi_inv r_psi_sqrt) of
        Inl e \<Rightarrow> Inl e
      | Inr diag \<Rightarrow>
          (case Sinv_ldiag0 (num_time_pts self) (A vs) (Q0inv pr) (Qinv pr) of
             Inl e \<Rightarrow> Inl e
           | Inr ldiag0 \<Rightarrow> traverse (\<lambda>inputs. blk_tridiag_chol la inputs ldiag0) diag))"

definition ia :: "mat list list \<Rightarrow> vec list list \<Rightarrow> vec list list" where
  "ia c m = map2 (map2 matvec) c m"

definition scan_chol_inv :: "linalg \<Rightarrow> (mat list \<times> mat list) \<times> vec list \<Rightarrow> error + vec list" where
  "scan_chol_inv la inputs =
     (case inputs of ((chol_decomp_Sinv_0, chol_decomp_Sinv_1), ia') \<Rightarrow>
        (case blk_chol_inv la chol_decomp_Sinv_0 chol_decomp_Sinv_1 ia' True False of
           Inl e \<Rightarrow> Inl e
         | Inr ib \<Rightarrow> blk_chol_inv la chol_decomp_Sinv_0 chol_decomp_Sinv_1 ib False True))"

definition post_z_means ::
  "linalg \<Rightarrow> smoothing_lds \<Rightarrow> lds_vars \<Rightarrow> lds_prior \<Rightarrow> vec list list \<Rightarrow> mat list list
     \<Rightarrow> error + vec list list" where
  "post_z_means la self vs pr m_psi r_psi_sqrt =
     (case chol_decomp_Sinv la self vs pr r_psi_sqrt of
        Inl e \<Rightarrow> Inl e
      | Inr chol \<Rightarrow>
          traverse (scan_chol_inv la) (zip chol (ia (c_psi_inv r_psi_sqrt) m_psi)))"

definition scan_chol_half_inv ::
  "linalg \<Rightarrow> (mat list \<times> mat list) \<times> vec list \<Rightarrow> error + vec list" where
  "scan_chol_half_inv la inputs =
     (case inputs of ((chol_decomp_Sinv_0, chol_decomp_Sinv_1), samples) \<Rightarrow>
        blk_chol_inv la chol_decomp_Sinv_0 chol_decomp_Sinv_1 samples False True)"

text \<open>
  \<open>post_z_samples = post_z_means + rands\<close>, as a function of the value of the node
  \<open>samples_z\<close>.
\<close>

definition post_z_samples ::
  "linalg \<Rightarrow> smoothing_lds \<Rightarrow> lds_vars \<Rightarrow> lds_prior \<Rightarrow> vec list list \<Rightarrow> mat list list
     \<Rightarrow> vec list list \<Rightarrow> error + vec list list" where
  "post_z_samples la self vs pr m_psi r_psi_sqrt samples_z =
     (case chol_decomp_Sinv la self vs pr r_psi_sqrt of
        Inl e \<Rightarrow> Inl e
      | Inr chol \<Rightarrow>
          (case post_z_means la self vs pr m_psi r_psi_sqrt of
             Inl e \<Rightarrow> Inl e
           | Inr means \<Rightarrow>
               (case traverse (scan_chol_half_inv la) (zip chol samples_z) of
                  Inl e \<Rightarrow> Inl e
                | Inr rands \<Rightarrow> Inr (map2 (map2 vec_add) means rands))))"

text \<open>
  \<open>samples_z = tf.random_normal(shape=[batch, T, d])\<close> is a node of the graph built by
  \<open>build_graph\<close>: every run of the graph draws it anew from the generator of the
  session.  The generator is the sequence of numbers it is going to produce; a draw
  consumes a prefix and leaves the rest.
\<close>

type_synonym generator = "nat \<Rightarrow> real"

definition random_normal :: "generator \<Rightarrow> nat \<Rightarrow> nat \<Rightarrow> nat \<Rightarrow> vec list list \<times> generator" where
  "random_normal g batch T d =
     (map (\<lambda>b. map (\<lambda>t. map (\<lambda>i. g ((b * T + t) * d + i)) [0..<d]) [0..<T]) [0..<batch],
      \<lambda>n. g (batch * T * d + n))"

text \<open>
  \<open>SmoothingLDS.generate_samples(sess, observations)\<close>: one run of \<open>post_z_samples\<close>.
  The batch size is that of the observations.
\<close>

definition generate_samples ::
  "linalg \<Rightarrow> smoothing_lds \<Rightarrow> lds_vars \<Rightarrow> lds_prior \<Rightarrow> vec list list \<Rightarrow> mat list list
     \<Rightarrow> generator \<Rightarrow> (error + vec list list) \<times> generator" where
  "generate_samples la self vs pr m_psi r_psi_sqrt g =
     (case random_normal g (length m_psi) (nat (num_time_pts self)) (nat (dim_latent self)) of
        (samples_z, g') \<Rightarrow> (post_z_samples la self vs pr m_psi r_psi_sqrt samples_z, g'))"

text \<open>\<open>SmoothingLDS.evaluate_entropy\<close>, on the value of \<open>self.chol_decomp_Sinv[0]\<close>.\<close>

definition matrix_diag_part :: "mat \<Rightarrow> vec" where
  "matrix_diag_part M = map (\<lambda>i. M ! i ! i) [0..<length M]"

definition reduce_mean0 :: "real list list list \<Rightarrow> real list list" where
  "reduce_mean0 X =
     (case X of
        [] \<Rightarrow> []
      | x0 # _ \<Rightarrow>
          map (\<lambda>t. map (\<lambda>i. (\<Sum>b\<leftarrow>X. b ! t ! i) / real (length X)) [0..<length (x0 ! t)])
            [0..<length x0])"

definition reduce_sum :: "real list list \<Rightarrow> real" where
  "reduce_sum X = sum_list (map sum_list X)"

definition evaluate_entropy :: "smoothing_lds \<Rightarrow> mat list list \<Rightarrow> real" where
  "evaluate_entropy self chol0 =
     (let ln_det = - 2 * reduce_sum (reduce_mean0 (map (map (map ln \<circ> matrix_diag_part)) chol0));
          entropy = ln_det / 2
            + real_of_int (dim_latent self * num_time_pts self) / 2 * (1 + ln (2 * pi))
      in entropy)"


text \<open>
  One run of the graph built by \<open>SmoothingLDS.build_graph\<close>: the values of its nodes for
  the encoder outputs of one batch of observations.
\<close>

record graph =
  val_m_psi :: "vec list list"
  val_r_psi_sqrt :: "mat list list"
  val_c_psi_inv :: "mat list list"
  val_Sinv_diag :: "mat list list"
  val_chol_decomp_Sinv :: "(mat list \<times> mat list) list"
  val_post_z_means :: "vec list list"

definition build_graph ::
  "linalg \<Rightarrow> smoothing_lds \<Rightarrow> lds_vars \<Rightarrow> lds_prior \<Rightarrow> vec list list \<Rightarrow> mat list list
     \<Rightarrow> error + graph" where
  "build_graph la self vs pr m_psi r_psi_sqrt =
     (case Sinv_diag (num_time_pts self) (A vs) (Q0inv pr) (Qinv pr) (c_psi_inv r_psi_sqrt) of
        Inl e \<Rightarrow> Inl e
      | Inr diag \<Rightarrow>
          (case chol_decomp_Sinv la self vs pr r_psi_sqrt of
             Inl e \<Rightarrow> Inl e
           | Inr chol \<Rightarrow>
               (case post_z_means la self vs pr m_psi r_psi_sqrt of
                  Inl e \<Rightarrow> Inl e
                | Inr means \<Rightarrow>
                    Inr \<lparr> val_m_psi = m_psi, val_r_psi_sqrt = r_psi_sqrt,
                          val_c_psi_inv = c_psi_inv r_psi_sqrt, val_Sinv_diag = diag,
                          val_chol_decomp_Sinv = chol, val_post_z_means = means \<rparr>)))"

section \<open>The primitives on \<open>1 \<times> 1\<close> matrices\<close>

text \<open>
  For a latent dimension of one the dense kernels are a square root, a division and a
  reciprocal.  This instance is used to run the model on concrete inputs.
\<close>

definition scalar_linalg :: linalg where
  "scalar_linalg =
     \<lparr> cholesky = (\<lambda>M. case M of [[x]] \<Rightarrow> if 0 < x then Some [[sqrt x]] else None | _ \<Rightarrow> None),
       matrix_triangular_solve =
         (\<lambda>C B lower adjoint. case C of [[c]] \<Rightarrow> map (map (\<lambda>b. b / c)) B | _ \<Rightarrow> B),
       matrix_inverse = (\<lambda>M. case M of [[x]] \<Rightarrow> [[1 / x]] | _ \<Rightarrow> M) \<rparr>"


section \<open>Quantities named by the specification\<close>

text \<open>
  The log-determinant of the precision matrix in terms of the diagonal blocks
  \<open>C_1 .. C_T\<close> of its block Cholesky factor, \<open>logdet(S) = 2 \<Sum>\<^sub>t \<Sum>\<^sub>i log (C_t[i,i])\<close>, and the
  average of a quantity over the batch.
\<close>

definition logdet_S :: "mat list \<Rightarrow> real" where
  "logdet_S Cs = 2 * (\<Sum>C\<leftarrow>Cs. \<Sum>i\<leftarrow>[0..<length C]. ln (C ! i ! i))"

definition batch_average :: "real list \<Rightarrow> real" where
  "batch_average xs = sum_list xs / real (length xs)"

section \<open>Dense matrices, definiteness and the contract of the dense kernels\<close>

text \<open>
  The block-tridiagonal operand with diagonal blocks \<open>D\<close> and sub-diagonal blocks \<open>L\<close>
  (the upper blocks are the transposes \<open>L_t\<^sup>T\<close>) and the block-bidiagonal factor with
  diagonal blocks \<open>C\<close> and sub-diagonal blocks \<open>E\<close>, expanded to full dense
  \<open>(T d) \<times> (T d)\<close> matrices.
\<close>

definition zero_mat :: "nat \<Rightarrow> mat" where
  "zero_mat d = replicate d (replicate d 0)"

definition dense :: "nat \<Rightarrow> nat \<Rightarrow> (nat \<Rightarrow> nat \<Rightarrow> mat) \<Rightarrow> mat" where
  "dense T d G =
     map (\<lambda>i. map (\<lambda>j. G (i div d) (j div d) ! (i mod d) ! (j mod d)) [0..<T * d]) [0..<T * d]"

definition tri_block :: "nat \<Rightarrow> mat list \<Rightarrow> mat list \<Rightarrow> nat \<Rightarrow> nat \<Rightarrow> mat" where
  "tri_block d D L t s =
     (if s = t then D ! t
      else if Suc s = t then L ! s
      else if s = Suc t then mat_transpose (L ! t)
      else zero_mat d)"

definition bi_block :: "nat \<Rightarrow> mat list \<Rightarrow> mat list \<Rightarrow> nat \<Rightarrow> nat \<Rightarrow> mat" where
  "bi_block d C E t s =
     (if s = t then C ! t else if Suc s = t then E ! s else zero_mat d)"

definition dense_tridiag :: "nat \<Rightarrow> mat list \<Rightarrow> mat list \<Rightarrow> mat" where
  "dense_tridiag d D L = dense (length D) d (tri_block d D L)"

definition dense_bidiag :: "nat \<Rightarrow> mat list \<Rightarrow> mat list \<Rightarrow> mat" where
  "dense_bidiag d C E = dense (length C) d (bi_block d C E)"

text \<open>Symmetric positive (semi-)definite \<open>n \<times> n\<close> matrices.\<close>

definition pos_def :: "nat \<Rightarrow> mat \<Rightarrow> bool" where
  "pos_def n M \<longleftrightarrow> (\<forall>x. length x = n \<and> x \<noteq> replicate n 0 \<longrightarrow> 0 < dot x (matvec M x))"

definition spd :: "nat \<Rightarrow> mat \<Rightarrow> bool" where
  "spd n M \<longleftrightarrow> is_mat n n M \<and> mat_transpose M = M \<and> pos_def n M"

definition psd :: "nat \<Rightarrow> mat \<Rightarrow> bool" where
  "psd n M \<longleftrightarrow> is_mat n n M \<and> mat_transpose M = M
     \<and> (\<forall>x. length x = n \<longrightarrow> 0 \<le> dot x (matvec M x))"

text \<open>A Cholesky factor: lower triangular with a positive diagonal.\<close>

definition chol_factor :: "nat \<Rightarrow> mat \<Rightarrow> bool" where
  "chol_factor d C \<longleftrightarrow>
     is_mat d d C \<and> (\<forall>i<d. \<forall>j<d. i < j \<longrightarrow> C ! i ! j = 0) \<and> (\<forall>i<d. 0 < C ! i ! i)"

text \<open>
  What the dense kernels are taken to do on \<open>d \<times> d\<close> matrices, in exact arithmetic:
  \<open>cholesky\<close> succeeds on a symmetric positive definite matrix, and a factor it returns
  for a symmetric matrix is a Cholesky factor \<open>C\<close> with \<open>C C\<^sup>T\<close> the matrix;
  \<open>matrix_triangular_solve\<close> with \<open>lower=True\<close> solves \<open>C X = B\<close> (or \<open>C\<^sup>T X = B\<close> with
  \<open>adjoint=True\<close>) for a square or a single-column right-hand side;
  \<open>matrix_inverse\<close> inverts a symmetric positive definite matrix.
\<close>

definition linalg_ok :: "nat \<Rightarrow> linalg \<Rightarrow> bool" where
  "linalg_ok d la \<longleftrightarrow>
     (\<forall>M. spd d M \<longrightarrow> cholesky la M \<noteq> None)
   \<and> (\<forall>M C. is_mat d d M \<and> mat_transpose M = M \<and> cholesky la M = Some C
          \<longrightarrow> chol_factor d C \<and> matmul C (mat_transpose C) = M)
   \<and> (\<forall>C B adjoint. chol_factor d C \<and> is_mat d d B
          \<longrightarrow> is_mat d d (matrix_triangular_solve la C B True adjoint)
            \<and> matmul (if adjoint then mat_transpose C else C)
                 (matrix_triangular_solve la C B True adjoint) = B)
   \<and> (\<forall>C b adjoint. chol_factor d C \<and> length b = d
          \<longrightarrow> length (tri_solve la C b adjoint) = d
            \<and> matvec (if adjoint then mat_transpose C else C) (tri_solve la C b adjoint) = b)
   \<and> (\<forall>M. spd d M
          \<longrightarrow> is_mat d d (matrix_inverse la M)
            \<and> matmul M (matrix_inverse la M) = eye d
            \<and> matmul (matrix_inverse la M) M = eye d)"

text \<open>
  The quadratic form \<open>x\<^sup>T S x\<close> of the block-tridiagonal operand on a block vector
  \<open>x = (x_1, .., x_T)\<close>.
\<close>

definition tri_quad :: "mat list \<Rightarrow> mat list \<Rightarrow> vec list \<Rightarrow> real" where
  "tri_quad D L x =
     (\<Sum>t<length D. dot (x ! t) (matvec (D ! t) (x ! t)))
     + 2 * (\<Sum>t<length L. dot (x ! Suc t) (matvec (L ! t) (x ! t)))"

text \<open>
  Positive definiteness of the block-tridiagonal operand, on block vectors: the quadratic
  form is positive on every block vector with a non-zero block.
\<close>

definition blk_pos_def :: "nat \<Rightarrow> mat list \<Rightarrow> mat list \<Rightarrow> bool" where
  "blk_pos_def d D L \<longleftrightarrow>
     (\<forall>x. length x = length D \<and> (\<forall>v\<in>set x. length v = d) \<and> (\<exists>v\<in>set x. v \<noteq> replicate d 0)
        \<longrightarrow> 0 < tri_quad D L x)"

text \<open>
  The assembled blocks written by recursion along the chain of time steps: \<open>B\<close> is the
  static term of the current diagonal block and \<open>P\<close> the precision that couples the
  current step to the next one (\<open>Q0inv\<close> at the first step, \<open>Qinv\<close>, here \<open>Qi\<close>,
  afterwards); \<open>Am\<close> is the transition matrix.
\<close>

fun chain_diag :: "mat \<Rightarrow> mat \<Rightarrow> mat \<Rightarrow> mat \<Rightarrow> mat list \<Rightarrow> mat list" where
  "chain_diag Am Qi P B [] = []"
| "chain_diag Am Qi P B (c # cs) =
     mat_add B c
       # chain_diag Am Qi Qi (mat_add (matmul (matmul Am P) (mat_transpose Am)) Qi) cs"

fun chain_ldiag :: "mat \<Rightarrow> mat \<Rightarrow> mat \<Rightarrow> mat list \<Rightarrow> mat list" where
  "chain_ldiag Am Qi P (c # c' # cs) = matmul (mat_neg Am) P # chain_ldiag Am Qi Qi (c' # cs)"
| "chain_ldiag Am Qi P cs = []"

section \<open>The linear-Gaussian model the posterior is compared with\<close>





section \<open>Running the model on concrete inputs\<close>

lemmas eval_defs = Sinv_diag_def Sinv_diag_static_def Sinv_ldiag0_def tile_def add_blocks_def
  AQinvA_Qinv_def AQ0invA_Qinv_def AQ0inv_def AQinv_def c_psi_inv_def
  matmul_def mat_transpose_def dot_def mat_add_def mat_neg_def mat_sub_def matvec_def
  vec_add_def vec_sub_def is_mat_def blk_tridiag_chol_def tri_solve_def solve_shapes_ok_def
  chol_decomp_Sinv_def ia_def scan_chol_inv_def post_z_means_def scan_chol_half_inv_def
  post_z_samples_def random_normal_def generate_samples_def SmoothingLDS_init_def
  scalar_linalg_def build_graph_def

lemma sqrt_9: "sqrt 9 = 3"
  using real_sqrt_abs[of 3] by simp

lemma traverse_map:
  "(\<And>x. x \<in> set xs \<Longrightarrow> f x = Inr (g x)) \<Longrightarrow> traverse f xs = Inr (map g xs)"
  by (induction xs) auto

section \<open>The assembled blocks\<close>

lemma Sinv_diag_static_eq:
  fixes A Q0inv Qinv :: mat
  assumes "2 \<le> T"
  shows "Sinv_diag_static T A Q0inv Qinv =
           Inr ([Q0inv, AQ0invA_Qinv A Q0inv Qinv] @ replicate (nat (T - 2)) (AQinvA_Qinv A Qinv))"
  using assms by (simp add: Sinv_diag_static_def tile_def)

lemma Sinv_diag_eq:
  fixes A Q0inv Qinv :: mat
  assumes T: "2 \<le> T" and c: "\<forall>cb\<in>set c. length cb = nat T"
  shows "Sinv_diag T A Q0inv Qinv c =
           Inr (map (\<lambda>cb. map2 mat_add
                  ([Q0inv, AQ0invA_Qinv A Q0inv Qinv]
                     @ replicate (nat (T - 2)) (AQinvA_Qinv A Qinv)) cb) c)"
proof -
  have len: "length ([Q0inv, AQ0invA_Qinv A Q0inv Qinv]
      @ replicate (nat (T - 2)) (AQinvA_Qinv A Qinv)) = nat T"
    using T by simp
  show ?thesis
    unfolding Sinv_diag_def Sinv_diag_static_eq[OF T]
    using c len
    by (auto intro!: traverse_map simp: add_blocks_def simp del: length_append length_replicate)
qed

lemma Sinv_ldiag0_eq:
  fixes A Q0inv Qinv :: mat
  assumes "2 \<le> T"
  shows "Sinv_ldiag0 T A Q0inv Qinv =
           Inr ([AQ0inv A Q0inv] @ replicate (nat (T - 2)) (AQinv A Qinv))"
  using assms by (simp add: Sinv_ldiag0_def tile_def)

lemma Sinv_diag_short:
  fixes A Q0inv Qinv :: mat
  shows "T < 2 \<Longrightarrow> Sinv_diag T A Q0inv Qinv c = Inl InvalidArgumentError"
  by (simp add: Sinv_diag_def Sinv_diag_static_def tile_def)

text \<open>
  C1 (as amended).  For \<open>T \<ge> 2\<close> and data stacks of \<open>T\<close> blocks, the assembly succeeds and,
  in every batch element, the diagonal blocks are \<open>D_1 = Q0inv + c_1\<close>,
  \<open>D_2 = A Q0inv A\<^sup>T + Qinv + c_2\<close> and \<open>D_t = A Qinv A\<^sup>T + Qinv + c_t\<close> for every
  \<open>t = 3..T\<close>, the last block included; the sub-diagonal blocks are \<open>L_1 = (-A) Q0inv\<close>
  and \<open>L_t = (-A) Qinv\<close> for \<open>t = 2..T-1\<close>.  (Lists are indexed from \<open>0\<close>.)
\<close>

theorem Sinv_blocks:
  fixes A Q0inv Qinv :: mat
  assumes T: "2 \<le> T" and c: "\<forall>cb\<in>set c. length cb = nat T"
  shows "\<exists>D L. Sinv_diag T A Q0inv Qinv c = Inr D \<and> Sinv_ldiag0 T A Q0inv Qinv = Inr L
     \<and> length D = length c
     \<and> (\<forall>b<length c. length (D ! b) = nat T
           \<and> D ! b ! 0 = mat_add Q0inv (c ! b ! 0)
           \<and> D ! b ! 1 =
               mat_add (mat_add (matmul (matmul A Q0inv) (mat_transpose A)) Qinv) (c ! b ! 1)
           \<and> (\<forall>t. 2 \<le> t \<and> t < nat T \<longrightarrow>
                 D ! b ! t =
                   mat_add (mat_add (matmul (matmul A Qinv) (mat_transpose A)) Qinv) (c ! b ! t)))
     \<and> length L = nat T - 1
     \<and> L ! 0 = matmul (mat_neg A) Q0inv
     \<and> (\<forall>t. 1 \<le> t \<and> t < nat T - 1 \<longrightarrow> L ! t = matmul (mat_neg A) Qinv)"
proof -
  let ?st = "[Q0inv, AQ0invA_Qinv A Q0inv Qinv] @ replicate (nat (T - 2)) (AQinvA_Qinv A Qinv)"
  let ?D = "map (\<lambda>cb. map2 mat_add ?st cb) c"
  let ?L = "[AQ0inv A Q0inv] @ replicate (nat (T - 2)) (AQinv A Qinv)"
  have len: "length ?st = nat T" using T by simp
  have D: "Sinv_diag T A Q0inv Qinv c = Inr ?D" by (rule Sinv_diag_eq[OF T c])
  have L: "Sinv_ldiag0 T A Q0inv Qinv = Inr ?L" by (rule Sinv_ldiag0_eq[OF T])
  have blocks: "length (?D ! b) = nat T
       \<and> ?D ! b ! 0 = mat_add Q0inv (c ! b ! 0)
       \<and> ?D ! b ! 1 =
           mat_add (mat_add (matmul (matmul A Q0inv) (mat_transpose A)) Qinv) (c ! b ! 1)
       \<and> (\<forall>t. 2 \<le> t \<and> t < nat T \<longrightarrow>
             ?D ! b ! t =
               mat_add (mat_add (matmul (matmul A Qinv) (mat_transpose A)) Qinv) (c ! b ! t))"
    if b: "b < length c" for b
  proof -
    have lc: "length (c ! b) = nat T" using c b by simp
    have T2: "2 \<le> nat T" using T by simp
    have nth: "?D ! b ! t = mat_add (?st ! t) (c ! b ! t)" if "t < nat T" for t
      using that b lc len by (simp del: length_append length_replicate append.simps)
    have mid: "?st ! t = AQinvA_Qinv A Qinv" if "2 \<le> t" "t < nat T" for t
    proof -
      have "?st ! t = replicate (nat (T - 2)) (AQinvA_Qinv A Qinv) ! (t - 2)"
        using that by (simp add: nth_append)
      also have "\<dots> = AQinvA_Qinv A Qinv" using that by simp
      finally show ?thesis .
    qed
    have "length (?D ! b) = nat T"
      using b lc len by (simp del: length_append length_replicate append.simps)
    moreover have "?D ! b ! 0 = mat_add Q0inv (c ! b ! 0)"
      using nth[of 0] T2 by simp
    moreover have "?D ! b ! 1 =
        mat_add (mat_add (matmul (matmul A Q0inv) (mat_transpose A)) Qinv) (c ! b ! 1)"
      using nth[of 1] T2 by (simp add: AQ0invA_Qinv_def)
    moreover have "\<forall>t. 2 \<le> t \<and> t < nat T \<longrightarrow>
        ?D ! b ! t =
          mat_add (mat_add (matmul (matmul A Qinv) (mat_transpose A)) Qinv) (c ! b ! t)"
    proof (intro allI impI)
      fix t assume t: "2 \<le> t \<and> t < nat T"
      then have "?D ! b ! t = mat_add (AQinvA_Qinv A Qinv) (c ! b ! t)"
        using nth[of t] mid[of t] by (simp only:)
      then show "?D ! b ! t =
          mat_add (mat_add (matmul (matmul A Qinv) (mat_transpose A)) Qinv) (c ! b ! t)"
        by (simp only: AQinvA_Qinv_def)
    qed
    ultimately show ?thesis by blast
  qed
  have Lblocks: "length ?L = nat T - 1 \<and> ?L ! 0 = matmul (mat_neg A) Q0inv
     \<and> (\<forall>t. 1 \<le> t \<and> t < nat T - 1 \<longrightarrow> ?L ! t = matmul (mat_neg A) Qinv)"
    using T by (auto simp: AQ0inv_def AQinv_def nth_Cons split: nat.splits)
  have "length ?D = length c" by simp
  with D L blocks Lblocks show ?thesis
    by (intro exI[of _ ?D] exI[of _ ?L]) blast
qed

theorem Sinv_blocks_witness:
  "\<exists>D L. Sinv_diag 4 [[2]] [[3]] [[5]] [[ [[1]], [[1]], [[1]], [[1]] ]] = Inr D
     \<and> Sinv_ldiag0 4 [[2]] [[3]] [[5]] = Inr L
     \<and> D ! 0 ! 3 = mat_add (mat_add (matmul (matmul [[2]] [[5]]) (mat_transpose [[2]])) [[5]]) [[1]]
     \<and> L ! 2 = matmul (mat_neg [[2]]) [[5]]"
proof -
  have "(2::int) \<le> 4" by simp
  moreover have "\<forall>cb\<in>set [[ [[1]], [[1]], [[1]], [[1::real]] ]]. length cb = nat 4" by simp
  ultimately obtain D L where
    "Sinv_diag 4 [[2]] [[3]] [[5]] [[ [[1]], [[1]], [[1]], [[1]] ]] = Inr D"
    "Sinv_ldiag0 4 [[2]] [[3]] [[5]] = Inr L"
    "\<forall>b<length [[ [[1]], [[1]], [[1]], [[1::real]] ]].
        \<forall>t. 2 \<le> t \<and> t < nat 4 \<longrightarrow>
          D ! b ! t = mat_add (mat_add (matmul (matmul [[2]] [[5]]) (mat_transpose [[2]])) [[5]])
                        ([[ [[1]], [[1]], [[1]], [[1]] ]] ! b ! t)"
    "\<forall>t. 1 \<le> t \<and> t < nat 4 - 1 \<longrightarrow> L ! t = matmul (mat_neg [[2]]) [[5]]"
    using Sinv_blocks[of 4 "[[ [[1]], [[1]], [[1]], [[1]] ]]" "[[2]]" "[[3]]" "[[5]]"] by blast
  then show ?thesis by (intro exI[of _ D] exI[of _ L]) simp
qed

theorem Sinv_diag_claimed_blocks_counterexample:
  "\<exists>D. Sinv_diag 4 [[2]] [[3]] [[5]] [[ [[1]], [[1]], [[1]], [[1]] ]] = Inr [D]
     \<and> D ! 2 \<noteq> mat_add (mat_add (matmul (matmul [[2]] [[3]]) (mat_transpose [[2]])) [[5]]) [[1]]
     \<and> D ! 3 \<noteq> mat_add [[5]] [[1]]"
  by (simp add: eval_defs eval_nat_numeral)

section \<open>Sequences shorter than two steps\<close>

text \<open>
  C8 (as amended).  With a single time step the posterior mean is not computed: the
  precision assembly tiles the middle block \<open>T - 2 = -1\<close> times, the tile operation
  rejects the negative multiple, and the computation ends with that error before any
  factorisation or solve.
\<close>

theorem post_z_means_single_step:
  "num_time_pts self = 1 \<Longrightarrow>
     post_z_means la self vs pr m_psi r_psi_sqrt = Inl InvalidArgumentError"
  by (simp add: post_z_means_def chol_decomp_Sinv_def Sinv_diag_short)

theorem post_z_means_single_step_witness:
  "num_time_pts (SmoothingLDS_init 1 1 0 1) = 1
   \<and> post_z_means scalar_linalg (SmoothingLDS_init 1 1 0 1)
        \<lparr> z0_mean = [[0]], A = [[2]], Q_sqrt = [[1]], Q0_sqrt = [[1]] \<rparr>
        \<lparr> Q0 = [[1/3]], Q = [[1/2]], Q0inv = [[3]], Qinv = [[2]] \<rparr>
        [[[2]]] [[ [[1]] ]] = Inl InvalidArgumentError"
  using post_z_means_single_step[of "SmoothingLDS_init 1 1 0 1" scalar_linalg
      "\<lparr> z0_mean = [[0]], A = [[2]], Q_sqrt = [[1]], Q0_sqrt = [[1]] \<rparr>"
      "\<lparr> Q0 = [[1/3]], Q = [[1/2]], Q0inv = [[3]], Qinv = [[2]] \<rparr>" "[[[2]]]" "[[ [[1]] ]]"]
  by (simp add: SmoothingLDS_init_def)

theorem post_z_means_single_step_counterexample:
  "\<not> (\<exists>mean. post_z_means scalar_linalg (SmoothingLDS_init 1 1 0 1)
        \<lparr> z0_mean = [[0]], A = [[2]], Q_sqrt = [[1]], Q0_sqrt = [[1]] \<rparr>
        \<lparr> Q0 = [[1/3]], Q = [[1/2]], Q0inv = [[3]], Qinv = [[2]] \<rparr>
        [[[2]]] [[ [[1]] ]] = Inr mean)"
  by (simp add: eval_defs)

text \<open>
  C9 (as amended).  \<open>SmoothingLDS.__init__\<close> stores the number of time steps and the
  latent dimension as given, zero included, and raises nothing.  With \<open>T = 0\<close> a run of
  the graph fails in the precision assembly, where the tile operation rejects the
  multiple \<open>T - 2 = -2\<close>; the error is the tile operation's, not an
  \<open>InvalidConfigurationError\<close>.
\<close>

theorem no_configuration_check:
  "num_time_pts (SmoothingLDS_init di d r T) = T
   \<and> dim_latent (SmoothingLDS_init di d r T) = d
   \<and> (T = 0 \<longrightarrow>
        build_graph la (SmoothingLDS_init di d r T) vs pr m_psi r_psi_sqrt
          = Inl InvalidArgumentError)"
  by (simp add: SmoothingLDS_init_def build_graph_def Sinv_diag_short)

theorem no_configuration_check_witness:
  "num_time_pts (SmoothingLDS_init 1 0 0 0) = 0
   \<and> dim_latent (SmoothingLDS_init 1 0 0 0) = 0
   \<and> build_graph scalar_linalg (SmoothingLDS_init 1 0 0 0)
        \<lparr> z0_mean = [[]], A = [], Q_sqrt = [], Q0_sqrt = [] \<rparr>
        \<lparr> Q0 = [], Q = [], Q0inv = [], Qinv = [] \<rparr> [[]] [[]] = Inl InvalidArgumentError"
  using no_configuration_check[of 1 0 0 0 scalar_linalg
        "\<lparr> z0_mean = [[]], A = [], Q_sqrt = [], Q0_sqrt = [] \<rparr>"
        "\<lparr> Q0 = [], Q = [], Q0inv = [], Qinv = [] \<rparr>" "[[]]" "[[]]"]
  by simp

theorem no_configuration_check_counterexample:
  "build_graph scalar_linalg (SmoothingLDS_init 1 1 0 0)
        \<lparr> z0_mean = [[0]], A = [[2]], Q_sqrt = [[1]], Q0_sqrt = [[1]] \<rparr>
        \<lparr> Q0 = [[1/3]], Q = [[1/2]], Q0inv = [[3]], Qinv = [[2]] \<rparr> [[]] [[]]
     \<noteq> Inl InvalidConfigurationError"
  by (simp add: eval_defs)

section \<open>The jitter on the derived covariances\<close>

text \<open>
  C7.  At \<open>Q_sqrt = Q0_sqrt = [[0]]\<close> the covariances derived by
  \<open>SmoothingLDS._initialize_model_vars\<close> and by \<open>LDSCoupled.initialize_prior_vars\<close> are
  \<open>[[0]]\<close>: no jitter is added there.  \<open>LDS.initialize_prior_vars\<close> adds it and yields
  \<open>[[1e-6]]\<close>.
\<close>

theorem jitter_only_in_LDS:
  "Q (SmoothingLDS_prior la \<lparr> z0_mean = [[0]], A = [[1/2]], Q_sqrt = [[0]], Q0_sqrt = [[0]] \<rparr>) = [[0]]
   \<and> Q0 (SmoothingLDS_prior la \<lparr> z0_mean = [[0]], A = [[1/2]], Q_sqrt = [[0]], Q0_sqrt = [[0]] \<rparr>) = [[0]]
   \<and> Q (LDSCoupled_prior la \<lparr> z0_mean = [[0]], A = [[1/2]], Q_sqrt = [[0]], Q0_sqrt = [[0]] \<rparr>) = [[0]]
   \<and> Q0 (LDSCoupled_prior la \<lparr> z0_mean = [[0]], A = [[1/2]], Q_sqrt = [[0]], Q0_sqrt = [[0]] \<rparr>) = [[0]]
   \<and> Q (LDS_prior la 1 \<lparr> z0_mean = [[0]], A = [[1/2]], Q_sqrt = [[0]], Q0_sqrt = [[0]] \<rparr>) = [[1/1000000]]
   \<and> Q0 (LDS_prior la 1 \<lparr> z0_mean = [[0]], A = [[1/2]], Q_sqrt = [[0]], Q0_sqrt = [[0]] \<rparr>) = [[1/1000000]]"
  by (simp add: SmoothingLDS_prior_def LDSCoupled_prior_def LDS_prior_def matmul_def
      mat_transpose_def dot_def mat_add_def mat_scale_def eye_def Let_def)

section \<open>Entropy and the data-dependent means\<close>

text \<open>
  C10.  Two runs of the graph with the same parameters and the same precision factors
  \<open>r_psi_sqrt\<close> but different means \<open>m_psi\<close> give the same entropy: the entropy reads
  only the diagonal blocks of the Cholesky factor.
\<close>

theorem entropy_ignores_m_psi:
  "build_graph la self vs pr m1 r_psi_sqrt = Inr g1 \<Longrightarrow>
   build_graph la self vs pr m2 r_psi_sqrt = Inr g2 \<Longrightarrow>
   evaluate_entropy self (map fst (val_chol_decomp_Sinv g1))
     = evaluate_entropy self (map fst (val_chol_decomp_Sinv g2))"
  by (auto simp: build_graph_def split: sum.splits)

theorem entropy_ignores_m_psi_witness:
  "\<exists>g1 g2.
     build_graph scalar_linalg (SmoothingLDS_init 1 1 0 2)
        \<lparr> z0_mean = [[0]], A = [[2]], Q_sqrt = [[1]], Q0_sqrt = [[1]] \<rparr>
        \<lparr> Q0 = [[1/3]], Q = [[1/2]], Q0inv = [[3]], Qinv = [[2]] \<rparr>
        [[[2], [3]]] [[ [[1]], [[2]] ]] = Inr g1
   \<and> build_graph scalar_linalg (SmoothingLDS_init 1 1 0 2)
        \<lparr> z0_mean = [[0]], A = [[2]], Q_sqrt = [[1]], Q0_sqrt = [[1]] \<rparr>
        \<lparr> Q0 = [[1/3]], Q = [[1/2]], Q0inv = [[3]], Qinv = [[2]] \<rparr>
        [[[0], [1]]] [[ [[1]], [[2]] ]] = Inr g2
   \<and> val_post_z_means g1 = [[[3], [5/3]]]
   \<and> val_post_z_means g2 = [[[2/3], [4/9]]]
   \<and> evaluate_entropy (SmoothingLDS_init 1 1 0 2) (map fst (val_chol_decomp_Sinv g1))
        = evaluate_entropy (SmoothingLDS_init 1 1 0 2) (map fst (val_chol_decomp_Sinv g2))"
proof -
  let ?g = "\<lambda>m. \<lparr> val_m_psi = m, val_r_psi_sqrt = [[ [[1]], [[2]] ]],
      val_c_psi_inv = [[ [[1]], [[4]] ]], val_Sinv_diag = [[ [[4]], [[18]] ]],
      val_chol_decomp_Sinv = [([[[2]], [[3]]], [[[-3]]])], val_post_z_means = m \<rparr>"
  have b1: "build_graph scalar_linalg (SmoothingLDS_init 1 1 0 2)
        \<lparr> z0_mean = [[0]], A = [[2]], Q_sqrt = [[1]], Q0_sqrt = [[1]] \<rparr>
        \<lparr> Q0 = [[1/3]], Q = [[1/2]], Q0inv = [[3]], Qinv = [[2]] \<rparr>
        [[[2], [3]]] [[ [[1]], [[2]] ]]
      = Inr ((?g [[[2], [3]]])\<lparr> val_post_z_means := [[[3], [5/3]]] \<rparr>)"
    by (simp add: eval_defs sqrt_9)
  have b2: "build_graph scalar_linalg (SmoothingLDS_init 1 1 0 2)
        \<lparr> z0_mean = [[0]], A = [[2]], Q_sqrt = [[1]], Q0_sqrt = [[1]] \<rparr>
        \<lparr> Q0 = [[1/3]], Q = [[1/2]], Q0inv = [[3]], Qinv = [[2]] \<rparr>
        [[[0], [1]]] [[ [[1]], [[2]] ]]
      = Inr ((?g [[[0], [1]]])\<lparr> val_post_z_means := [[[2/3], [4/9]]] \<rparr>)"
    by (simp add: eval_defs sqrt_9)
  from entropy_ignores_m_psi[OF b1 b2] b1 b2 show ?thesis
    by (intro exI conjI) (assumption | simp)+
qed


section \<open>Posterior samples and the noise\<close>

text \<open>
  C4 (as amended).  The noise is not supplied by the caller: \<open>generate_samples\<close> draws
  \<open>samples_z\<close> itself, from the generator of the session, and leaves the generator
  advanced by \<open>batch * T * d\<close> numbers.  Its output is determined by the parameters, the
  data terms and the state of the generator: each sample is the posterior mean plus the
  backward solve of the drawn noise against the Cholesky factor.
\<close>

theorem generate_samples_draws_noise:
  assumes chol: "chol_decomp_Sinv la self vs pr r_psi_sqrt = Inr chol"
    and means: "post_z_means la self vs pr m_psi r_psi_sqrt = Inr means"
    and noise: "noise = fst (random_normal g (length m_psi) (nat (num_time_pts self))
                              (nat (dim_latent self)))"
    and shapes: "\<forall>x\<in>set (zip chol noise).
                   fst (fst x) \<noteq> [] \<and> hd (fst (fst x)) \<noteq> []
                   \<and> solve_shapes_ok (fst (fst x)) (snd (fst x)) (snd x)"
  shows "generate_samples la self vs pr m_psi r_psi_sqrt g =
           (Inr (map2 (map2 vec_add) means
                   (map (\<lambda>x. backward_subst la (fst (fst x)) (snd (fst x)) (snd x))
                      (zip chol noise))),
            \<lambda>n. g (length m_psi * nat (num_time_pts self) * nat (dim_latent self) + n))"
proof -
  have "traverse (scan_chol_half_inv la) (zip chol noise) =
          Inr (map (\<lambda>x. backward_subst la (fst (fst x)) (snd (fst x)) (snd x)) (zip chol noise))"
    using shapes by (intro traverse_map) (auto simp: scan_chol_half_inv_def)
  then show ?thesis
    using chol means noise
    by (simp add: generate_samples_def post_z_samples_def random_normal_def)
qed

theorem generate_samples_draws_noise_witness:
  "generate_samples scalar_linalg (SmoothingLDS_init 1 1 0 2)
        \<lparr> z0_mean = [[0]], A = [[2]], Q_sqrt = [[1]], Q0_sqrt = [[1]] \<rparr>
        \<lparr> Q0 = [[1/3]], Q = [[1/2]], Q0inv = [[3]], Qinv = [[2]] \<rparr>
        [[[2], [3]]] [[ [[1]], [[2]] ]] (\<lambda>n. real n)
     = (Inr (map2 (map2 vec_add) [[[3], [5/3]]]
               [backward_subst scalar_linalg [[[2]], [[3]]] [[[-3]]] [[0], [1]]]),
        \<lambda>n. real (2 + n))"
proof -
  let ?self = "SmoothingLDS_init 1 1 0 2"
  let ?vs = "\<lparr> z0_mean = [[0]], A = [[2]], Q_sqrt = [[1]], Q0_sqrt = [[1]] \<rparr>"
  let ?pr = "\<lparr> Q0 = [[1/3]], Q = [[1/2]], Q0inv = [[3]], Qinv = [[2]] \<rparr>"
  have chol: "chol_decomp_Sinv scalar_linalg ?self ?vs ?pr [[ [[1]], [[2]] ]]
                = Inr [([[[2]], [[3]]], [[[-3]]])]"
    by (simp add: eval_defs sqrt_9)
  have means: "post_z_means scalar_linalg ?self ?vs ?pr [[[2], [3]]] [[ [[1]], [[2]] ]]
                = Inr [[[3], [5/3]]]"
    by (simp add: eval_defs sqrt_9)
  have noise: "[[[0], [1]]] = fst (random_normal (\<lambda>n. real n) (length [[[2::real], [3]]])
                  (nat (num_time_pts ?self)) (nat (dim_latent ?self)))"
    by (simp add: random_normal_def SmoothingLDS_init_def eval_nat_numeral)
  have shapes: "\<forall>x\<in>set (zip [([[[2]], [[3]]], [[[-3::real]]])] [[[0::real], [1]]]).
                   fst (fst x) \<noteq> [] \<and> hd (fst (fst x)) \<noteq> []
                   \<and> solve_shapes_ok (fst (fst x)) (snd (fst x)) (snd x)"
    by (simp add: solve_shapes_ok_def is_mat_def)
  show ?thesis
    using generate_samples_draws_noise[OF chol means noise shapes]
    by (simp add: SmoothingLDS_init_def)
qed

theorem generate_samples_repeat_counterexample:
  "fst (generate_samples scalar_linalg (SmoothingLDS_init 1 1 0 2)
        \<lparr> z0_mean = [[0]], A = [[2]], Q_sqrt = [[1]], Q0_sqrt = [[1]] \<rparr>
        \<lparr> Q0 = [[1/3]], Q = [[1/2]], Q0inv = [[3]], Qinv = [[2]] \<rparr>
        [[[2], [3]]] [[ [[1]], [[2]] ]] (\<lambda>n. real n)) = Inr [[[7/2], [2]]]
   \<and> fst (generate_samples scalar_linalg (SmoothingLDS_init 1 1 0 2)
        \<lparr> z0_mean = [[0]], A = [[2]], Q_sqrt = [[1]], Q0_sqrt = [[1]] \<rparr>
        \<lparr> Q0 = [[1/3]], Q = [[1/2]], Q0inv = [[3]], Qinv = [[2]] \<rparr>
        [[[2], [3]]] [[ [[1]], [[2]] ]]
        (snd (generate_samples scalar_linalg (SmoothingLDS_init 1 1 0 2)
        \<lparr> z0_mean = [[0]], A = [[2]], Q_sqrt = [[1]], Q0_sqrt = [[1]] \<rparr>
        \<lparr> Q0 = [[1/3]], Q = [[1/2]], Q0inv = [[3]], Qinv = [[2]] \<rparr>
        [[[2], [3]]] [[ [[1]], [[2]] ]] (\<lambda>n. real n)))) = Inr [[[11/2], [8/3]]]"
  by (simp add: eval_defs sqrt_9 eval_nat_numeral)

section \<open>The entropy\<close>

lemma sum_list_upt_sum: "(\<Sum>i\<leftarrow>[0..<n]. f i) = (\<Sum>i<n. f i)"
  by (simp add: interv_sum_list_conv_sum_set_nat atLeast0LessThan)

lemma sum_list_index_sum: "(\<Sum>x\<leftarrow>xs. f x) = (\<Sum>i<length xs. f (xs ! i))"
proof -
  have "(\<Sum>x\<leftarrow>xs. f x) = (\<Sum>i = 0..<length (map f xs). map f xs ! i)"
    by (rule sum_list_sum_nth)
  also have "\<dots> = (\<Sum>i<length xs. f (xs ! i))"
    by (intro sum.cong) (auto simp: atLeast0LessThan)
  finally show ?thesis .
qed

lemma half_logdet_S:
  "logdet_S Cs / 2 = (\<Sum>t<length Cs. \<Sum>i<length (Cs ! t). ln (Cs ! t ! i ! i))"
  unfolding logdet_S_def by (simp add: sum_list_index_sum[of _ Cs] sum_list_upt_sum)

text \<open>
  C5.  On a non-empty batch of factors of one shape, the entropy routine returns the
  batch average of \<open>0.5 (- logdet(S)) + (T d / 2) (1 + log (2 \<pi>))\<close>, where
  \<open>logdet(S) = 2 \<Sum>\<^sub>t \<Sum>\<^sub>i log (C_t[i,i])\<close>.
\<close>

theorem entropy_formula:
  assumes ne: "chol0 \<noteq> []"
    and rect: "\<forall>Cs\<in>set chol0. length Cs = length (hd chol0)
                 \<and> (\<forall>t<length Cs. length (Cs ! t) = length (hd chol0 ! t))"
  shows "evaluate_entropy self chol0 =
           batch_average (map (\<lambda>Cs. 1/2 * (- logdet_S Cs)
              + real_of_int (num_time_pts self) * real_of_int (dim_latent self) / 2 * (1 + ln (2 * pi))) chol0)"
proof -
  define B where "B = length chol0"
  define x0 where "x0 = hd chol0"
  define K where "K = real_of_int (num_time_pts self) * real_of_int (dim_latent self) / 2 * (1 + ln (2 * pi))"
  define X where "X = map (map (map ln \<circ> matrix_diag_part)) chol0"
  have Bpos: "0 < B" using ne by (simp add: B_def)
  have c0: "chol0 = x0 # tl chol0" using ne by (simp add: x0_def)
  have Xc: "X = map (map ln \<circ> matrix_diag_part) x0 # tl X"
    using ne by (cases chol0) (simp_all add: X_def x0_def)
  have lenX: "length X = B" by (simp add: X_def B_def)
  have shape: "length (chol0 ! b) = length x0 \<and> (\<forall>t<length x0. length (chol0 ! b ! t) = length (x0 ! t))"
    if "b < B" for b
    using rect that by (auto simp: B_def x0_def)
  have entry: "X ! b ! t ! i = ln (chol0 ! b ! t ! i ! i)"
    if "b < B" "t < length x0" "i < length (x0 ! t)" for b t i
    using that shape[of b] by (simp add: X_def B_def matrix_diag_part_def)
  have mean: "reduce_mean0 X =
      map (\<lambda>t. map (\<lambda>i. (\<Sum>b\<leftarrow>X. b ! t ! i) / real B) [0..<length (x0 ! t)]) [0..<length x0]"
  proof -
    have "reduce_mean0 X =
        map (\<lambda>t. map (\<lambda>i. (\<Sum>b\<leftarrow>X. b ! t ! i) / real (length X))
                   [0..<length (map (map ln \<circ> matrix_diag_part) x0 ! t)])
          [0..<length (map (map ln \<circ> matrix_diag_part) x0)]"
      unfolding reduce_mean0_def by (subst (1) Xc) (simp only: list.case)
    also have "\<dots> = map (\<lambda>t. map (\<lambda>i. (\<Sum>b\<leftarrow>X. b ! t ! i) / real B) [0..<length (x0 ! t)])
          [0..<length x0]"
      by (intro map_cong) (simp_all add: lenX matrix_diag_part_def)
    finally show ?thesis .
  qed
  have "reduce_sum (reduce_mean0 X) =
          (\<Sum>t<length x0. \<Sum>i<length (x0 ! t). (\<Sum>b<B. X ! b ! t ! i) / real B)"
    unfolding mean reduce_sum_def
    by (simp add: comp_def sum_list_upt_sum sum_list_index_sum[of _ X] lenX)
  also have "\<dots> = (\<Sum>t<length x0. \<Sum>i<length (x0 ! t). (\<Sum>b<B. ln (chol0 ! b ! t ! i ! i)) / real B)"
    by (intro sum.cong refl arg_cong2[where f="(/)"]) (simp add: entry)
  also have "\<dots> = (\<Sum>t<length x0. \<Sum>i<length (x0 ! t). \<Sum>b<B. ln (chol0 ! b ! t ! i ! i)) / real B"
    by (simp add: sum_divide_distrib)
  also have "(\<Sum>t<length x0. \<Sum>i<length (x0 ! t). \<Sum>b<B. ln (chol0 ! b ! t ! i ! i))
      = (\<Sum>b<B. \<Sum>t<length x0. \<Sum>i<length (x0 ! t). ln (chol0 ! b ! t ! i ! i))"
  proof -
    have "(\<Sum>t<length x0. \<Sum>i<length (x0 ! t). \<Sum>b<B. ln (chol0 ! b ! t ! i ! i))
        = (\<Sum>t<length x0. \<Sum>b<B. \<Sum>i<length (x0 ! t). ln (chol0 ! b ! t ! i ! i))"
      by (intro sum.cong refl sum.swap)
    also have "\<dots> = (\<Sum>b<B. \<Sum>t<length x0. \<Sum>i<length (x0 ! t). ln (chol0 ! b ! t ! i ! i))"
      by (rule sum.swap)
    finally show ?thesis .
  qed
  also have "\<dots> = (\<Sum>b<B. logdet_S (chol0 ! b) / 2)"
  proof (intro sum.cong refl)
    fix b assume "b \<in> {..<B}"
    then have b: "b < B" by simp
    show "(\<Sum>t<length x0. \<Sum>i<length (x0 ! t). ln (chol0 ! b ! t ! i ! i)) = logdet_S (chol0 ! b) / 2"
      unfolding half_logdet_S using shape[OF b] by (intro sum.cong) auto
  qed
  finally have rs: "reduce_sum (reduce_mean0 X) = (\<Sum>b<B. logdet_S (chol0 ! b) / 2) / real B" .
  have "batch_average (map (\<lambda>Cs. 1/2 * (- logdet_S Cs) + K) chol0)
      = (\<Sum>b<B. 1/2 * (- logdet_S (chol0 ! b)) + K) / real B"
    by (simp add: batch_average_def sum_list_index_sum[of _ chol0] B_def)
  also have "\<dots> = (- (\<Sum>b<B. logdet_S (chol0 ! b) / 2) + real B * K) / real B"
    by (simp add: sum.distrib sum_negf sum_subtractf)
  also have "\<dots> = - ((\<Sum>b<B. logdet_S (chol0 ! b) / 2) / real B) + K"
    using Bpos by (simp add: field_simps)
  finally have avg: "batch_average (map (\<lambda>Cs. 1/2 * (- logdet_S Cs) + K) chol0)
      = - ((\<Sum>b<B. logdet_S (chol0 ! b) / 2) / real B) + K" .
  have "evaluate_entropy self chol0 = - 2 * reduce_sum (reduce_mean0 X) / 2 + K"
    by (simp add: evaluate_entropy_def X_def K_def Let_def)
  also have "\<dots> = - ((\<Sum>b<B. logdet_S (chol0 ! b) / 2) / real B) + K"
    by (simp add: rs)
  finally show ?thesis using avg by (simp add: K_def)
qed

theorem entropy_formula_witness:
  "evaluate_entropy (SmoothingLDS_init 1 1 0 2) [[[[2]], [[3]]], [[[1]], [[4]]]] =
     batch_average (map (\<lambda>Cs. 1/2 * (- logdet_S Cs)
        + real_of_int (num_time_pts (SmoothingLDS_init 1 1 0 2))
            * real_of_int (dim_latent (SmoothingLDS_init 1 1 0 2)) / 2 * (1 + ln (2 * pi)))
       [[[[2]], [[3]]], [[[1]], [[4]]]])"
proof -
  have ne: "[[[[2]], [[3]]], [[[1]], [[4::real]]]] \<noteq> []" by simp
  have rect: "\<forall>Cs\<in>set [[[[2]], [[3]]], [[[1]], [[4::real]]]].
      length Cs = length (hd [[[[2]], [[3]]], [[[1]], [[4::real]]]])
      \<and> (\<forall>t<length Cs. length (Cs ! t) = length (hd [[[[2]], [[3]]], [[[1]], [[4::real]]]] ! t))"
    by (auto simp: less_Suc_eq)
  show ?thesis
    using entropy_formula[OF ne rect, of "SmoothingLDS_init 1 1 0 2"] by simp
qed

section \<open>Shapes and entries of matrices\<close>

lemma is_mat_length: "is_mat n m M \<Longrightarrow> length M = n"
  by (simp add: is_mat_def)

lemma is_mat_row: "is_mat n m M \<Longrightarrow> i < n \<Longrightarrow> length (M ! i) = m"
  by (simp add: is_mat_def list_all_length)

lemma is_matI: "length M = n \<Longrightarrow> (\<And>i. i < n \<Longrightarrow> length (M ! i) = m) \<Longrightarrow> is_mat n m M"
  by (simp add: is_mat_def list_all_length)

lemma mat_eqI:
  assumes "is_mat n m X" "is_mat n m Y" "\<And>i j. i < n \<Longrightarrow> j < m \<Longrightarrow> X ! i ! j = Y ! i ! j"
  shows "X = Y"
proof (rule nth_equalityI)
  show "length X = length Y" using assms(1,2) by (simp add: is_mat_length)
  fix i assume "i < length X"
  then have i: "i < n" using assms(1) by (simp add: is_mat_length)
  show "X ! i = Y ! i"
    by (rule nth_equalityI) (use i assms in \<open>simp_all add: is_mat_row\<close>)
qed

lemma dot_sum: "length u = n \<Longrightarrow> length v = n \<Longrightarrow> dot u v = (\<Sum>k<n. u ! k * v ! k)"
proof -
  assume l: "length u = n" "length v = n"
  have "dot u v = (\<Sum>k<length (map2 (*) u v). map2 (*) u v ! k)"
    unfolding dot_def by (simp add: sum_list_sum_nth atLeast0LessThan)
  also have "\<dots> = (\<Sum>k<n. u ! k * v ! k)"
    using l by (intro sum.cong) auto
  finally show ?thesis .
qed

lemma transpose_eq:
  "is_mat d d M \<Longrightarrow> mat_transpose M = map (\<lambda>j. map (\<lambda>row. row ! j) M) [0..<d]"
  by (cases M) (auto simp: mat_transpose_def is_mat_def)

lemma transpose_mat: "is_mat d d M \<Longrightarrow> is_mat d d (mat_transpose M)"
  by (simp add: transpose_eq) (simp add: is_mat_def list_all_length)

lemma transpose_nth:
  "is_mat d d M \<Longrightarrow> i < d \<Longrightarrow> j < d \<Longrightarrow> mat_transpose M ! i ! j = M ! j ! i"
  by (simp add: transpose_eq) (simp add: is_mat_def)

lemma matmul_mat:
  "is_mat d d X \<Longrightarrow> is_mat d d Y \<Longrightarrow> is_mat d d (matmul X Y)"
  using transpose_mat[of d Y] by (auto simp: matmul_def is_mat_def list_all_length)

lemma matmul_nth:
  assumes "is_mat d d X" "is_mat d d Y" "i < d" "j < d"
  shows "matmul X Y ! i ! j = (\<Sum>k<d. X ! i ! k * Y ! k ! j)"
proof -
  have T: "is_mat d d (mat_transpose Y)" using assms(2) by (rule transpose_mat)
  have "matmul X Y ! i ! j = dot (X ! i) (mat_transpose Y ! j)"
    using assms T by (simp add: matmul_def is_mat_length)
  also have "\<dots> = (\<Sum>k<d. X ! i ! k * mat_transpose Y ! j ! k)"
    using assms T by (intro dot_sum) (simp_all add: is_mat_row)
  also have "\<dots> = (\<Sum>k<d. X ! i ! k * Y ! k ! j)"
    using assms by (intro sum.cong) (simp_all add: transpose_nth)
  finally show ?thesis .
qed

lemma mat_add_mat: "is_mat n m X \<Longrightarrow> is_mat n m Y \<Longrightarrow> is_mat n m (mat_add X Y)"
  by (auto simp: mat_add_def is_mat_def list_all_length)

lemma mat_add_nth:
  "is_mat n m X \<Longrightarrow> is_mat n m Y \<Longrightarrow> i < n \<Longrightarrow> j < m \<Longrightarrow> mat_add X Y ! i ! j = X ! i ! j + Y ! i ! j"
  by (auto simp: mat_add_def is_mat_def list_all_length)

lemma mat_sub_mat: "is_mat n m X \<Longrightarrow> is_mat n m Y \<Longrightarrow> is_mat n m (mat_sub X Y)"
  by (auto simp: mat_sub_def is_mat_def list_all_length)

lemma mat_sub_nth:
  "is_mat n m X \<Longrightarrow> is_mat n m Y \<Longrightarrow> i < n \<Longrightarrow> j < m \<Longrightarrow> mat_sub X Y ! i ! j = X ! i ! j - Y ! i ! j"
  by (auto simp: mat_sub_def is_mat_def list_all_length)

lemma mat_neg_mat: "is_mat n m X \<Longrightarrow> is_mat n m (mat_neg X)"
  by (auto simp: mat_neg_def is_mat_def list_all_length)

lemma mat_neg_nth:
  "is_mat n m X \<Longrightarrow> i < n \<Longrightarrow> j < m \<Longrightarrow> mat_neg X ! i ! j = - (X ! i ! j)"
  by (auto simp: mat_neg_def is_mat_def list_all_length)

lemma matvec_length: "is_mat n m M \<Longrightarrow> length (matvec M v) = n"
  by (simp add: matvec_def is_mat_def)

lemma matvec_nth:
  assumes "is_mat n m M" "length v = m" "i < n"
  shows "matvec M v ! i = (\<Sum>k<m. M ! i ! k * v ! k)"
proof -
  have "matvec M v ! i = dot (M ! i) v"
    using assms by (simp add: matvec_def dot_def is_mat_length)
  then show ?thesis using assms by (simp add: dot_sum is_mat_row)
qed

lemma vec_add_length: "length u = n \<Longrightarrow> length v = n \<Longrightarrow> length (vec_add u v) = n"
  by (simp add: vec_add_def)

lemma vec_add_nth: "length u = n \<Longrightarrow> length v = n \<Longrightarrow> i < n \<Longrightarrow> vec_add u v ! i = u ! i + v ! i"
  by (simp add: vec_add_def)

lemma vec_sub_length: "length u = n \<Longrightarrow> length v = n \<Longrightarrow> length (vec_sub u v) = n"
  by (simp add: vec_sub_def)

lemma vec_sub_nth: "length u = n \<Longrightarrow> length v = n \<Longrightarrow> i < n \<Longrightarrow> vec_sub u v ! i = u ! i - v ! i"
  by (simp add: vec_sub_def)

section \<open>Matrix algebra\<close>

lemma vec_eqI: "length u = n \<Longrightarrow> length v = n \<Longrightarrow> (\<And>i. i < n \<Longrightarrow> u ! i = v ! i) \<Longrightarrow> u = v"
  by (rule nth_equalityI) simp_all

lemma matvec_matmul:
  assumes "is_mat d d X" "is_mat d d Y" "length v = d"
  shows "matvec (matmul X Y) v = matvec X (matvec Y v)"
proof (rule vec_eqI[of _ d])
  note XY = matmul_mat[OF assms(1,2)]
  show "length (matvec (matmul X Y) v) = d"
    by (rule matvec_length[OF XY])
  show "length (matvec X (matvec Y v)) = d"
    by (rule matvec_length[OF assms(1)])
  fix i assume i: "i < d"
  have lv: "length (matvec Y v) = d" by (rule matvec_length[OF assms(2)])
  have "matvec (matmul X Y) v ! i = (\<Sum>j<d. (\<Sum>k<d. X ! i ! k * Y ! k ! j) * v ! j)"
    using assms i by (simp add: matvec_nth[OF XY] matmul_nth)
  also have "\<dots> = (\<Sum>j<d. \<Sum>k<d. X ! i ! k * (Y ! k ! j * v ! j))"
    by (simp add: sum_distrib_right mult.assoc)
  also have "\<dots> = (\<Sum>k<d. \<Sum>j<d. X ! i ! k * (Y ! k ! j * v ! j))"
    by (rule sum.swap)
  also have "\<dots> = (\<Sum>k<d. X ! i ! k * matvec Y v ! k)"
    using assms by (simp add: matvec_nth[OF assms(2)] sum_distrib_left)
  also have "\<dots> = matvec X (matvec Y v) ! i"
    using i lv by (simp add: matvec_nth[OF assms(1)])
  finally show "matvec (matmul X Y) v ! i = matvec X (matvec Y v) ! i" .
qed

lemma dot_commute: "length u = n \<Longrightarrow> length v = n \<Longrightarrow> dot u v = dot v u"
  by (simp add: dot_sum mult.commute)

lemma dot_matvec_transpose:
  assumes "is_mat d d M" "length x = d" "length y = d"
  shows "dot (matvec M x) y = dot x (matvec (mat_transpose M) y)"
proof -
  have T: "is_mat d d (mat_transpose M)" using assms(1) by (rule transpose_mat)
  have "dot (matvec M x) y = (\<Sum>i<d. (\<Sum>k<d. M ! i ! k * x ! k) * y ! i)"
    using assms by (simp add: dot_sum[of _ d] matvec_length[OF assms(1)] matvec_nth[OF assms(1)])
  also have "\<dots> = (\<Sum>i<d. \<Sum>k<d. x ! k * (M ! i ! k * y ! i))"
    by (intro sum.cong refl) (simp add: sum_distrib_right sum_distrib_left mult_ac)
  also have "\<dots> = (\<Sum>k<d. \<Sum>i<d. x ! k * (M ! i ! k * y ! i))"
    by (rule sum.swap)
  also have "\<dots> = (\<Sum>k<d. x ! k * (\<Sum>i<d. mat_transpose M ! k ! i * y ! i))"
    using assms by (simp add: sum_distrib_left transpose_nth)
  also have "\<dots> = dot x (matvec (mat_transpose M) y)"
    using assms by (simp add: dot_sum[of _ d] matvec_length[OF T] matvec_nth[OF T])
  finally show ?thesis .
qed

lemma matvec_mat_add:
  assumes "is_mat d d X" "is_mat d d Y" "length v = d"
  shows "matvec (mat_add X Y) v = vec_add (matvec X v) (matvec Y v)"
proof -
  note S = mat_add_mat[OF assms(1,2)]
  note l = matvec_length[OF assms(1), of v] matvec_length[OF assms(2), of v]
  show ?thesis
    using assms
    by (intro vec_eqI[of _ d])
       (simp_all add: matvec_length[OF S] vec_add_length[OF l] vec_add_nth[OF l]
          matvec_nth[OF S] matvec_nth[OF assms(1)] matvec_nth[OF assms(2)]
          mat_add_nth sum.distrib distrib_right)
qed

lemma matvec_mat_sub:
  assumes "is_mat d d X" "is_mat d d Y" "length v = d"
  shows "matvec (mat_sub X Y) v = vec_sub (matvec X v) (matvec Y v)"
proof -
  note S = mat_sub_mat[OF assms(1,2)]
  note l = matvec_length[OF assms(1), of v] matvec_length[OF assms(2), of v]
  show ?thesis
    using assms
    by (intro vec_eqI[of _ d])
       (simp_all add: matvec_length[OF S] vec_sub_length[OF l] vec_sub_nth[OF l]
          matvec_nth[OF S] matvec_nth[OF assms(1)] matvec_nth[OF assms(2)]
          mat_sub_nth sum_subtractf left_diff_distrib)
qed

lemma matvec_vec_add:
  assumes "is_mat d d X" "length u = d" "length v = d"
  shows "matvec X (vec_add u v) = vec_add (matvec X u) (matvec X v)"
proof -
  note l = matvec_length[OF assms(1), of u] matvec_length[OF assms(1), of v]
  show ?thesis
    using assms
    by (intro vec_eqI[of _ d])
       (simp_all add: matvec_length[OF assms(1)] vec_add_length vec_add_nth[OF l]
          vec_add_nth[OF assms(2,3)] matvec_nth[OF assms(1)] sum.distrib distrib_left)
qed

lemma matvec_vec_sub:
  assumes "is_mat d d X" "length u = d" "length v = d"
  shows "matvec X (vec_sub u v) = vec_sub (matvec X u) (matvec X v)"
proof -
  note l = matvec_length[OF assms(1), of u] matvec_length[OF assms(1), of v]
  show ?thesis
    using assms
    by (intro vec_eqI[of _ d])
       (simp_all add: matvec_length[OF assms(1)] vec_sub_length vec_sub_nth[OF l]
          vec_sub_nth[OF assms(2,3)] matvec_nth[OF assms(1)] sum_subtractf right_diff_distrib)
qed

lemma transpose_transpose: "is_mat d d M \<Longrightarrow> mat_transpose (mat_transpose M) = M"
  by (rule mat_eqI[of d d])
     (simp_all add: transpose_mat transpose_nth[OF transpose_mat] transpose_nth)

lemma transpose_matmul:
  assumes "is_mat d d X" "is_mat d d Y"
  shows "mat_transpose (matmul X Y) = matmul (mat_transpose Y) (mat_transpose X)"
proof -
  note XY = matmul_mat[OF assms]
  note TX = transpose_mat[OF assms(1)] and TY = transpose_mat[OF assms(2)]
  show ?thesis
    using assms
    by (intro mat_eqI[of d d])
       (simp_all add: transpose_mat[OF XY] matmul_mat[OF TY TX] transpose_nth[OF XY]
          matmul_nth[OF TY TX] matmul_nth transpose_nth mult.commute)
qed

lemma dot_vec_add_left:
  "length u = n \<Longrightarrow> length v = n \<Longrightarrow> length w = n \<Longrightarrow> dot (vec_add u v) w = dot u w + dot v w"
  by (simp add: dot_sum[of _ n] vec_add_length vec_add_nth sum.distrib distrib_right)

lemma dot_vec_sub_left:
  "length u = n \<Longrightarrow> length v = n \<Longrightarrow> length w = n \<Longrightarrow> dot (vec_sub u v) w = dot u w - dot v w"
  by (simp add: dot_sum[of _ n] vec_sub_length vec_sub_nth sum_subtractf left_diff_distrib)

section \<open>The contract of the dense kernels, clause by clause\<close>

lemma cholesky_succeeds: "linalg_ok d la \<Longrightarrow> spd d M \<Longrightarrow> \<exists>C. cholesky la M = Some C"
  unfolding linalg_ok_def by blast

lemma cholesky_factor:
  "linalg_ok d la \<Longrightarrow> is_mat d d M \<Longrightarrow> mat_transpose M = M \<Longrightarrow> cholesky la M = Some C
     \<Longrightarrow> chol_factor d C \<and> matmul C (mat_transpose C) = M"
  unfolding linalg_ok_def by blast

lemma triangular_solve_square:
  "linalg_ok d la \<Longrightarrow> chol_factor d C \<Longrightarrow> is_mat d d B
     \<Longrightarrow> is_mat d d (matrix_triangular_solve la C B True False)
       \<and> matmul C (matrix_triangular_solve la C B True False) = B"
  unfolding linalg_ok_def by (metis (full_types))


lemma tri_solve_backward:
  "linalg_ok d la \<Longrightarrow> chol_factor d C \<Longrightarrow> length b = d
     \<Longrightarrow> length (tri_solve la C b True) = d
       \<and> matvec (mat_transpose C) (tri_solve la C b True) = b"
  unfolding linalg_ok_def by (metis (full_types))

lemma matrix_inverse_ok:
  "linalg_ok d la \<Longrightarrow> spd d M
     \<Longrightarrow> is_mat d d (matrix_inverse la M) \<and> matmul M (matrix_inverse la M) = eye d
       \<and> matmul (matrix_inverse la M) M = eye d"
  unfolding linalg_ok_def by blast

lemma chol_factor_mat: "chol_factor d C \<Longrightarrow> is_mat d d C"
  by (simp add: chol_factor_def)

section \<open>One step of the block factorisation\<close>

lemma sub_diagonal_step:
  assumes la: "linalg_ok d la" and C: "chol_factor d C" and L: "is_mat d d L"
  defines "E \<equiv> mat_transpose (matrix_triangular_solve la C (mat_transpose L) True False)"
  shows "is_mat d d E \<and> matmul E (mat_transpose C) = L"
proof -
  let ?X = "matrix_triangular_solve la C (mat_transpose L) True False"
  have X: "is_mat d d ?X" and CX: "matmul C ?X = mat_transpose L"
    using triangular_solve_square[OF la C transpose_mat[OF L]] by simp_all
  have "matmul E (mat_transpose C) = mat_transpose (matmul C ?X)"
    unfolding E_def using transpose_matmul[OF chol_factor_mat[OF C] X] by simp
  also have "\<dots> = L" by (simp add: CX transpose_transpose[OF L])
  finally show ?thesis using X by (simp add: E_def transpose_mat)
qed

lemma gram_mat: "is_mat d d E \<Longrightarrow> is_mat d d (matmul E (mat_transpose E))"
  by (simp add: matmul_mat transpose_mat)

lemma gram_symmetric:
  "is_mat d d E \<Longrightarrow> mat_transpose (matmul E (mat_transpose E)) = matmul E (mat_transpose E)"
  by (simp add: transpose_matmul[OF _ transpose_mat] transpose_transpose)

lemma transpose_mat_sub:
  assumes "is_mat d d X" "is_mat d d Y"
  shows "mat_transpose (mat_sub X Y) = mat_sub (mat_transpose X) (mat_transpose Y)"
proof -
  note S = mat_sub_mat[OF assms] and TX = transpose_mat[OF assms(1)] and TY = transpose_mat[OF assms(2)]
  show ?thesis
    using assms
    by (intro mat_eqI[of d d])
       (simp_all add: transpose_mat[OF S] mat_sub_mat[OF TX TY] transpose_nth[OF S]
          mat_sub_nth[OF TX TY] mat_sub_nth transpose_nth)
qed

lemma transpose_mat_add:
  assumes "is_mat d d X" "is_mat d d Y"
  shows "mat_transpose (mat_add X Y) = mat_add (mat_transpose X) (mat_transpose Y)"
proof -
  note S = mat_add_mat[OF assms] and TX = transpose_mat[OF assms(1)] and TY = transpose_mat[OF assms(2)]
  show ?thesis
    using assms
    by (intro mat_eqI[of d d])
       (simp_all add: transpose_mat[OF S] mat_add_mat[OF TX TY] transpose_nth[OF S]
          mat_add_nth[OF TX TY] mat_add_nth transpose_nth)
qed

lemma mat_sub_add_cancel:
  assumes "is_mat d d X" "is_mat d d Y"
  shows "mat_add (mat_sub X Y) Y = X"
proof -
  note S = mat_sub_mat[OF assms]
  show ?thesis
    using assms
    by (intro mat_eqI[of d d])
       (simp_all add: mat_add_mat[OF S] mat_add_nth[OF S] mat_sub_nth)
qed

lemma schur_complement_symmetric:
  assumes "is_mat d d D" "mat_transpose D = D" "is_mat d d E"
  shows "is_mat d d (mat_sub D (matmul E (mat_transpose E)))"
    and "mat_transpose (mat_sub D (matmul E (mat_transpose E)))
           = mat_sub D (matmul E (mat_transpose E))"
  using assms
  by (simp_all add: mat_sub_mat gram_mat transpose_mat_sub[OF _ gram_mat] gram_symmetric)

section \<open>The blocks of the factor\<close>

lemma chol_rec_blocks:
  assumes la: "linalg_ok d la"
  shows "is_mat d d M \<Longrightarrow> mat_transpose M = M
     \<Longrightarrow> list_all (\<lambda>D. is_mat d d D \<and> mat_transpose D = D) Ds
     \<Longrightarrow> list_all (is_mat d d) Ls \<Longrightarrow> length Ls = length Ds
     \<Longrightarrow> chol_rec la M Ds Ls = Inr (Cs, Es)
     \<Longrightarrow> length Cs = Suc (length Ds) \<and> length Es = length Ds
       \<and> list_all (chol_factor d) Cs \<and> list_all (is_mat d d) Es
       \<and> matmul (Cs ! 0) (mat_transpose (Cs ! 0)) = M
       \<and> (\<forall>t<length Ds.
             matmul (Es ! t) (mat_transpose (Cs ! t)) = Ls ! t
           \<and> mat_add (matmul (Cs ! Suc t) (mat_transpose (Cs ! Suc t)))
                (matmul (Es ! t) (mat_transpose (Es ! t))) = Ds ! t)"
proof (induction Ds arbitrary: M Ls Cs Es)
  case Nil
  then obtain C where C: "cholesky la M = Some C" and Cs: "Cs = [C]" "Es = []"
    by (auto split: option.splits)
  from cholesky_factor[OF la Nil.prems(1,2) C] show ?case using Cs by simp
next
  case (Cons D Ds)
  from Cons.prems(5) obtain L Ls' where Ls: "Ls = L # Ls'" by (cases Ls) auto
  from Cons.prems(6) obtain C where C: "cholesky la M = Some C"
    by (auto split: option.splits)
  define E where "E = mat_transpose (matrix_triangular_solve la C (mat_transpose L) True False)"
  define M' where "M' = mat_sub D (matmul E (mat_transpose E))"
  from Cons.prems(6) C Ls obtain Cs' Es' where
    rec: "chol_rec la M' Ds Ls' = Inr (Cs', Es')" and Cs: "Cs = C # Cs'" and Es: "Es = E # Es'"
    by (auto simp: E_def M'_def Let_def split: sum.splits)
  have CF: "chol_factor d C" and CC: "matmul C (mat_transpose C) = M"
    using cholesky_factor[OF la Cons.prems(1,2) C] by simp_all
  have D: "is_mat d d D" "mat_transpose D = D" and Dsok: "list_all (\<lambda>D. is_mat d d D \<and> mat_transpose D = D) Ds"
    using Cons.prems(3) by simp_all
  have L: "is_mat d d L" and Lsok: "list_all (is_mat d d) Ls'" and len: "length Ls' = length Ds"
    using Cons.prems(4,5) Ls by simp_all
  have E: "is_mat d d E" and EC: "matmul E (mat_transpose C) = L"
    using sub_diagonal_step[OF la CF L] by (simp_all add: E_def)
  have M': "is_mat d d M'" "mat_transpose M' = M'"
    unfolding M'_def by (rule schur_complement_symmetric[OF D E])+
  note IH = Cons.IH[OF M' Dsok Lsok len rec]
  have first: "mat_add (matmul (Cs' ! 0) (mat_transpose (Cs' ! 0))) (matmul E (mat_transpose E)) = D"
    using IH mat_sub_add_cancel[OF D(1) gram_mat[OF E]] by (simp add: M'_def)
  have "matmul (Es ! t) (mat_transpose (Cs ! t)) = Ls ! t
           \<and> mat_add (matmul (Cs ! Suc t) (mat_transpose (Cs ! Suc t)))
                (matmul (Es ! t) (mat_transpose (Es ! t))) = (D # Ds) ! t"
    if "t < length (D # Ds)" for t
  proof (cases t)
    case 0
    then show ?thesis using EC first by (simp add: Cs Es Ls)
  next
    case (Suc t')
    then show ?thesis using IH that by (simp add: Cs Es Ls)
  qed
  then show ?case using IH CF E CC by (simp add: Cs Es)
qed

section \<open>Sums over the entries of a block matrix\<close>

lemma sum_lessThan_add: "(\<Sum>k<a + b. g k) = (\<Sum>k<a. g k) + (\<Sum>k<b. g (a + k :: nat))"
  for g :: "nat \<Rightarrow> real"
  by (induction b) (simp_all add: add.assoc)

lemma sum_div_mod:
  fixes f :: "nat \<Rightarrow> nat \<Rightarrow> real"
  shows "(\<Sum>k<T * d. f (k div d) (k mod d)) = (\<Sum>s<T. \<Sum>r<d. f s r)"
proof (induction T)
  case 0
  show ?case by simp
next
  case (Suc T)
  have "(\<Sum>k<Suc T * d. f (k div d) (k mod d))
      = (\<Sum>k<T * d. f (k div d) (k mod d)) + (\<Sum>k<d. f ((T * d + k) div d) ((T * d + k) mod d))"
    using sum_lessThan_add[of "\<lambda>k. f (k div d) (k mod d)" "T * d" d] by (simp add: add.commute)
  also have "(\<Sum>k<d. f ((T * d + k) div d) ((T * d + k) mod d)) = (\<Sum>k<d. f T k)"
    by (intro sum.cong refl) simp
  finally show ?case using Suc.IH by simp
qed

lemma div_mod_bounds: "i < T * d \<Longrightarrow> i div d < T \<and> i mod d < d" for i T d :: nat
proof -
  assume i: "i < T * d"
  then have "0 < d" by (cases d) simp_all
  then show ?thesis using i by (simp add: less_mult_imp_div_less)
qed

lemma sum_three_terms:
  fixes h :: "nat \<Rightarrow> real"
  assumes t: "t < T" and z: "\<And>s. s < T \<Longrightarrow> s \<noteq> t \<Longrightarrow> Suc s \<noteq> t \<Longrightarrow> s \<noteq> Suc t \<Longrightarrow> h s = 0"
  shows "(\<Sum>s<T. h s) = h t + (if 0 < t then h (t - 1) else 0) + (if Suc t < T then h (Suc t) else 0)"
proof -
  define S where "S = {t} \<union> (if 0 < t then {t - 1} else {}) \<union> (if Suc t < T then {Suc t} else {})"
  have sub: "S \<subseteq> {..<T}" using t by (auto simp: S_def)
  have "(\<Sum>s<T. h s) = sum h S"
  proof (rule sum.mono_neutral_right)
    show "finite {..<T}" by simp
    show "S \<subseteq> {..<T}" by (rule sub)
    show "\<forall>i\<in>{..<T} - S. h i = 0"
    proof
      fix s assume "s \<in> {..<T} - S"
      then have "s < T" "s \<noteq> t" "Suc s \<noteq> t" "s \<noteq> Suc t"
        by (auto simp: S_def split: if_splits)
      then show "h s = 0" by (rule z)
    qed
  qed
  also have "sum h S = h t + (if 0 < t then h (t - 1) else 0) + (if Suc t < T then h (Suc t) else 0)"
    by (auto simp: S_def)
  finally show ?thesis .
qed

lemma sum_two_terms:
  fixes h :: "nat \<Rightarrow> real"
  assumes t: "t < T" and z: "\<And>s. s < T \<Longrightarrow> s \<noteq> t \<Longrightarrow> Suc s \<noteq> t \<Longrightarrow> h s = 0"
  shows "(\<Sum>s<T. h s) = h t + (if 0 < t then h (t - 1) else 0)"
proof -
  define S where "S = {t} \<union> (if 0 < t then {t - 1} else {})"
  have "(\<Sum>s<T. h s) = sum h S"
  proof (rule sum.mono_neutral_right)
    show "finite {..<T}" by simp
    show "S \<subseteq> {..<T}" using t by (auto simp: S_def)
    show "\<forall>i\<in>{..<T} - S. h i = 0"
    proof
      fix s assume "s \<in> {..<T} - S"
      then have "s < T" "s \<noteq> t" "Suc s \<noteq> t"
        by (auto simp: S_def split: if_splits)
      then show "h s = 0" by (rule z)
    qed
  qed
  also have "sum h S = h t + (if 0 < t then h (t - 1) else 0)"
    by (auto simp: S_def)
  finally show ?thesis .
qed

section \<open>Block vectors and dense block matrices\<close>

lemma length_concat_uniform:
  "\<forall>x\<in>set xs. length x = d \<Longrightarrow> length (concat xs) = length xs * d"
  by (induction xs) (simp_all del: length_concat)

lemma concat_nth_uniform:
  "\<forall>x\<in>set xs. length x = d \<Longrightarrow> k < length xs * d \<Longrightarrow> concat xs ! k = xs ! (k div d) ! (k mod d)"
proof (induction xs arbitrary: k)
  case Nil
  then show ?case by simp
next
  case (Cons x xs)
  have dpos: "0 < d" using Cons.prems(2) by (cases d) simp_all
  show ?case
  proof (cases "k < d")
    case True
    then show ?thesis using Cons.prems by (simp add: nth_append)
  next
    case False
    then have kd: "d \<le> k" by simp
    have "k - d < length xs * d" using Cons.prems(2) kd by simp
    then have "concat xs ! (k - d) = xs ! ((k - d) div d) ! ((k - d) mod d)"
      using Cons.IH Cons.prems(1) by simp
    moreover have "k div d = Suc ((k - d) div d)" using kd dpos by (simp add: le_div_geq)
    moreover have "k mod d = (k - d) mod d" using kd by (simp add: le_mod_geq)
    ultimately show ?thesis using Cons.prems(1) False by (simp add: nth_append)
  qed
qed

lemma zero_mat_mat: "is_mat d d (zero_mat d)"
  by (simp add: zero_mat_def is_mat_def list_all_length)

lemma zero_mat_nth: "i < d \<Longrightarrow> j < d \<Longrightarrow> zero_mat d ! i ! j = 0"
  by (simp add: zero_mat_def)

lemma dense_mat: "is_mat (T * d) (T * d) (dense T d G)"
  by (simp add: dense_def is_mat_def list_all_length)

lemma dense_nth:
  "i < T * d \<Longrightarrow> j < T * d \<Longrightarrow> dense T d G ! i ! j = G (i div d) (j div d) ! (i mod d) ! (j mod d)"
  by (simp add: dense_def)

lemma dot_concat:
  assumes "length xs = T" "length ys = T" "\<forall>x\<in>set xs. length x = d" "\<forall>y\<in>set ys. length y = d"
  shows "dot (concat xs) (concat ys) = (\<Sum>t<T. dot (xs ! t) (ys ! t))"
proof -
  have "dot (concat xs) (concat ys) = (\<Sum>k<T * d. concat xs ! k * concat ys ! k)"
    using assms length_concat_uniform[of xs d] length_concat_uniform[of ys d]
    by (intro dot_sum) (simp_all del: length_concat)
  also have "\<dots> = (\<Sum>k<T * d. xs ! (k div d) ! (k mod d) * ys ! (k div d) ! (k mod d))"
  proof (intro sum.cong refl)
    fix k assume "k \<in> {..<T * d}"
    then have k: "k < length xs * d" "k < length ys * d" using assms by simp_all
    show "concat xs ! k * concat ys ! k = xs ! (k div d) ! (k mod d) * ys ! (k div d) ! (k mod d)"
      by (simp only: concat_nth_uniform[OF assms(3) k(1)] concat_nth_uniform[OF assms(4) k(2)])
  qed
  also have "\<dots> = (\<Sum>t<T. \<Sum>r<d. xs ! t ! r * ys ! t ! r)"
    by (rule sum_div_mod)
  also have "\<dots> = (\<Sum>t<T. dot (xs ! t) (ys ! t))"
    using assms by (intro sum.cong refl) (simp add: dot_sum[of _ d])
  finally show ?thesis .
qed

lemma matvec_dense_concat:
  assumes G: "\<And>t s. t < T \<Longrightarrow> s < T \<Longrightarrow> is_mat d d (G t s)"
    and xs: "length xs = T" "\<forall>x\<in>set xs. length x = d" and i: "i < T * d"
  shows "matvec (dense T d G) (concat xs) ! i = (\<Sum>s<T. matvec (G (i div d) s) (xs ! s) ! (i mod d))"
proof -
  note b = div_mod_bounds[OF i]
  have "matvec (dense T d G) (concat xs) ! i = (\<Sum>k<T * d. dense T d G ! i ! k * concat xs ! k)"
    using xs i length_concat_uniform[of xs d]
    by (intro matvec_nth[OF dense_mat]) (simp_all del: length_concat)
  also have "\<dots> = (\<Sum>k<T * d. G (i div d) (k div d) ! (i mod d) ! (k mod d) * xs ! (k div d) ! (k mod d))"
    using xs i by (intro sum.cong refl) (simp add: dense_nth concat_nth_uniform)
  also have "\<dots> = (\<Sum>s<T. \<Sum>r<d. G (i div d) s ! (i mod d) ! r * xs ! s ! r)"
    by (rule sum_div_mod)
  also have "\<dots> = (\<Sum>s<T. matvec (G (i div d) s) (xs ! s) ! (i mod d))"
    using xs b by (intro sum.cong refl) (simp add: matvec_nth[OF G])
  finally show ?thesis .
qed

lemma gram_dense_nth:
  assumes G: "\<And>t s. t < T \<Longrightarrow> s < T \<Longrightarrow> is_mat d d (G t s)" and i: "i < T * d" and j: "j < T * d"
  shows "matmul (dense T d G) (mat_transpose (dense T d G)) ! i ! j
           = (\<Sum>s<T. matmul (G (i div d) s) (mat_transpose (G (j div d) s)) ! (i mod d) ! (j mod d))"
proof -
  note bi = div_mod_bounds[OF i] and bj = div_mod_bounds[OF j]
  note DM = dense_mat[of T d G]
  have "matmul (dense T d G) (mat_transpose (dense T d G)) ! i ! j
      = (\<Sum>k<T * d. dense T d G ! i ! k * mat_transpose (dense T d G) ! k ! j)"
    using i j by (rule matmul_nth[OF DM transpose_mat[OF DM]])
  also have "\<dots> = (\<Sum>k<T * d. G (i div d) (k div d) ! (i mod d) ! (k mod d)
                        * G (j div d) (k div d) ! (j mod d) ! (k mod d))"
    using i j by (intro sum.cong refl) (simp add: transpose_nth[OF DM] dense_nth)
  also have "\<dots> = (\<Sum>s<T. \<Sum>r<d. G (i div d) s ! (i mod d) ! r * G (j div d) s ! (j mod d) ! r)"
    by (rule sum_div_mod)
  also have "\<dots> = (\<Sum>s<T. matmul (G (i div d) s) (mat_transpose (G (j div d) s)) ! (i mod d) ! (j mod d))"
  proof (intro sum.cong refl)
    fix s assume "s \<in> {..<T}"
    then have s: "s < T" by simp
    note A = G[OF conjunct1[OF bi] s] and B = G[OF conjunct1[OF bj] s]
    show "(\<Sum>r<d. G (i div d) s ! (i mod d) ! r * G (j div d) s ! (j mod d) ! r)
        = matmul (G (i div d) s) (mat_transpose (G (j div d) s)) ! (i mod d) ! (j mod d)"
      using bi bj by (simp add: matmul_nth[OF A transpose_mat[OF B]] transpose_nth[OF B])
  qed
  finally show ?thesis .
qed

section \<open>The factor times its transpose, block by block\<close>

lemma matmul_transpose_nth:
  assumes "is_mat d d X" "is_mat d d Y" "a < d" "b < d"
  shows "matmul X (mat_transpose Y) ! a ! b = (\<Sum>r<d. X ! a ! r * Y ! b ! r)"
  using assms by (simp add: matmul_nth[OF assms(1) transpose_mat[OF assms(2)]] transpose_nth)

lemma bi_block_mat:
  assumes "list_all (is_mat d d) C" "list_all (is_mat d d) E" "length E + 1 = length C"
    "t < length C" "s < length C"
  shows "is_mat d d (bi_block d C E t s)"
  using assms by (auto simp: bi_block_def list_all_length zero_mat_mat)

lemma tri_block_mat:
  assumes "list_all (is_mat d d) D" "list_all (is_mat d d) L" "length L + 1 = length D"
    "t < length D" "s < length D"
  shows "is_mat d d (tri_block d D L t s)"
  using assms by (auto simp: tri_block_def list_all_length zero_mat_mat transpose_mat)

lemma bidiag_gram_entry:
  assumes C: "list_all (is_mat d d) C" and E: "list_all (is_mat d d) E"
    and len: "length E + 1 = length C"
    and first: "matmul (C ! 0) (mat_transpose (C ! 0)) = D ! 0"
    and step: "\<forall>t<length E.
             matmul (E ! t) (mat_transpose (C ! t)) = L ! t
           \<and> mat_add (matmul (C ! Suc t) (mat_transpose (C ! Suc t)))
                (matmul (E ! t) (mat_transpose (E ! t))) = D ! Suc t"
    and t: "t < length C" and u: "u < length C" and a: "a < d" and b: "b < d"
  shows "(\<Sum>s<length C. \<Sum>r<d. bi_block d C E t s ! a ! r * bi_block d C E u s ! b ! r)
           = tri_block d D L t u ! a ! b"
proof -
  define h where "h s = (\<Sum>r<d. bi_block d C E t s ! a ! r * bi_block d C E u s ! b ! r)" for s
  have Cm: "is_mat d d (C ! k)" if "k < length C" for k using C that by (simp add: list_all_length)
  have Em: "is_mat d d (E ! k)" if "k < length E" for k using E that by (simp add: list_all_length)
  have zero: "h s = 0" if "s < length C" "s \<noteq> t" "Suc s \<noteq> t" for s
    using that a by (simp add: h_def bi_block_def zero_mat_nth)
  have sum: "(\<Sum>s<length C. h s) = h t + (if 0 < t then h (t - 1) else 0)"
    by (rule sum_two_terms[OF t zero])
  have CC: "(\<Sum>r<d. C ! k ! a ! r * C ! k ! b ! r) = matmul (C ! k) (mat_transpose (C ! k)) ! a ! b"
    if "k < length C" for k
    using matmul_transpose_nth[OF Cm[OF that] Cm[OF that] a b] by simp
  have EE: "(\<Sum>r<d. E ! k ! a ! r * E ! k ! b ! r) = matmul (E ! k) (mat_transpose (E ! k)) ! a ! b"
    if "k < length E" for k
    using matmul_transpose_nth[OF Em[OF that] Em[OF that] a b] by simp
  have EC: "(\<Sum>r<d. E ! k ! a ! r * C ! k ! b ! r) = L ! k ! a ! b"
    if "k < length E" for k
    using matmul_transpose_nth[OF Em[OF that] Cm[of k] a b] that len step by simp
  have CE: "(\<Sum>r<d. C ! k ! a ! r * E ! k ! b ! r) = L ! k ! b ! a"
    if "k < length E" for k
    using matmul_transpose_nth[OF Em[OF that] Cm[of k] b a] that len step by (simp add: mult.commute)
  have Lm: "is_mat d d (L ! k)" if "k < length E" for k
  proof -
    have "is_mat d d (matmul (E ! k) (mat_transpose (C ! k)))"
      using that len by (intro matmul_mat transpose_mat Em Cm) simp_all
    then show ?thesis using step that by simp
  qed
  have D0: "matmul (C ! 0) (mat_transpose (C ! 0)) ! a ! b = D ! 0 ! a ! b"
    using first by simp
  have DS: "matmul (C ! Suc k) (mat_transpose (C ! Suc k)) ! a ! b
              + matmul (E ! k) (mat_transpose (E ! k)) ! a ! b = D ! Suc k ! a ! b"
    if "k < length E" for k
  proof -
    have k': "Suc k < length C" using that len by simp
    have "mat_add (matmul (C ! Suc k) (mat_transpose (C ! Suc k)))
                (matmul (E ! k) (mat_transpose (E ! k))) ! a ! b = D ! Suc k ! a ! b"
      using step that by simp
    then show ?thesis
      using a b
      by (simp add: mat_add_nth[OF gram_mat[OF Cm[OF k']] gram_mat[OF Em[OF that]]])
  qed
  consider (diag) "u = t" | (upper) "u = Suc t" | (lower) "Suc u = t"
    | (far) "u \<noteq> t" "u \<noteq> Suc t" "Suc u \<noteq> t" by blast
  then have "h t + (if 0 < t then h (t - 1) else 0) = tri_block d D L t u ! a ! b"
  proof cases
    case diag
    show ?thesis
    proof (cases t)
      case 0
      then show ?thesis using diag t CC[of 0] D0 by (simp add: h_def bi_block_def tri_block_def)
    next
      case (Suc k)
      then have k: "k < length E" using t len by simp
      show ?thesis
        using diag Suc CC[OF t] EE[OF k] DS[OF k]
        by (simp add: h_def bi_block_def tri_block_def)
    qed
  next
    case upper
    then have k: "t < length E" using u len by simp
    have "h t = L ! t ! b ! a" using upper CE[OF k] by (simp add: h_def bi_block_def)
    moreover have "0 < t \<Longrightarrow> h (t - 1) = 0"
      using upper b by (simp add: h_def bi_block_def zero_mat_nth)
    ultimately show ?thesis
      using upper a b by (simp add: tri_block_def transpose_nth[OF Lm[OF k]])
  next
    case lower
    then have k: "u < length E" using t len by simp
    have "h t = 0" using lower b by (auto simp: h_def bi_block_def zero_mat_nth)
    moreover have "h (t - 1) = L ! u ! a ! b"
      using lower EC[OF k] by (auto simp: h_def bi_block_def)
    ultimately show ?thesis using lower by (auto simp: tri_block_def)
  next
    case far
    have "h t = 0" using far b by (simp add: h_def bi_block_def zero_mat_nth)
    moreover have "0 < t \<Longrightarrow> h (t - 1) = 0"
      using far b by (auto simp: h_def bi_block_def zero_mat_nth)
    ultimately show ?thesis using far a b by (auto simp: tri_block_def zero_mat_nth)
  qed
  then show ?thesis using sum by (simp add: h_def)
qed

lemma bidiag_gram_tridiag:
  assumes C: "list_all (is_mat d d) C" and E: "list_all (is_mat d d) E"
    and len: "length E + 1 = length C" and lenD: "length D = length C"
    and first: "matmul (C ! 0) (mat_transpose (C ! 0)) = D ! 0"
    and step: "\<forall>t<length E.
             matmul (E ! t) (mat_transpose (C ! t)) = L ! t
           \<and> mat_add (matmul (C ! Suc t) (mat_transpose (C ! Suc t)))
                (matmul (E ! t) (mat_transpose (E ! t))) = D ! Suc t"
  shows "matmul (dense_bidiag d C E) (mat_transpose (dense_bidiag d C E)) = dense_tridiag d D L"
proof (rule mat_eqI[of "length C * d" "length C * d"])
  let ?T = "length C"
  note DM = dense_mat[of ?T d "bi_block d C E"]
  show "is_mat (?T * d) (?T * d) (matmul (dense_bidiag d C E) (mat_transpose (dense_bidiag d C E)))"
    unfolding dense_bidiag_def by (rule matmul_mat[OF DM transpose_mat[OF DM]])
  show "is_mat (?T * d) (?T * d) (dense_tridiag d D L)"
    unfolding dense_tridiag_def lenD by (rule dense_mat)
  fix i j assume i: "i < ?T * d" and j: "j < ?T * d"
  note bi = div_mod_bounds[OF i] and bj = div_mod_bounds[OF j]
  have G: "is_mat d d (bi_block d C E t s)" if "t < ?T" "s < ?T" for t s
    by (rule bi_block_mat[OF C E len that])
  have "matmul (dense_bidiag d C E) (mat_transpose (dense_bidiag d C E)) ! i ! j
      = (\<Sum>s<?T. matmul (bi_block d C E (i div d) s) (mat_transpose (bi_block d C E (j div d) s))
                    ! (i mod d) ! (j mod d))"
    unfolding dense_bidiag_def by (rule gram_dense_nth[OF G i j])
  also have "\<dots> = (\<Sum>s<?T. \<Sum>r<d. bi_block d C E (i div d) s ! (i mod d) ! r
                               * bi_block d C E (j div d) s ! (j mod d) ! r)"
    using bi bj by (intro sum.cong refl matmul_transpose_nth G) simp_all
  also have "\<dots> = tri_block d D L (i div d) (j div d) ! (i mod d) ! (j mod d)"
    using bi bj by (intro bidiag_gram_entry[OF C E len first step]) simp_all
  also have "\<dots> = dense_tridiag d D L ! i ! j"
    using i j by (simp add: dense_tridiag_def lenD dense_nth)
  finally show "matmul (dense_bidiag d C E) (mat_transpose (dense_bidiag d C E)) ! i ! j
      = dense_tridiag d D L ! i ! j" .
qed

section \<open>Inner products with matrix products\<close>

lemma dot_matvec_right:
  assumes "is_mat d d M" "length x = d" "length y = d"
  shows "dot y (matvec M x) = dot (matvec (mat_transpose M) y) x"
proof -
  note l = matvec_length[OF assms(1), of x] matvec_length[OF transpose_mat[OF assms(1)], of y]
  have "dot y (matvec M x) = dot (matvec M x) y"
    by (rule dot_commute[OF assms(3) l(1)])
  also have "\<dots> = dot x (matvec (mat_transpose M) y)"
    by (rule dot_matvec_transpose[OF assms])
  also have "\<dots> = dot (matvec (mat_transpose M) y) x"
    by (rule dot_commute[OF assms(2) l(2)])
  finally show ?thesis .
qed

lemma quad_gram:
  assumes "is_mat d d C" "length x = d"
  shows "dot x (matvec (matmul C (mat_transpose C)) x)
           = dot (matvec (mat_transpose C) x) (matvec (mat_transpose C) x)"
proof -
  note T = transpose_mat[OF assms(1)]
  have "matvec (matmul C (mat_transpose C)) x = matvec C (matvec (mat_transpose C) x)"
    by (rule matvec_matmul[OF assms(1) T assms(2)])
  then show ?thesis
    using dot_matvec_right[OF assms(1) matvec_length[OF T] assms(2), of x] by simp
qed

lemma bilinear_gram:
  assumes "is_mat d d E" "is_mat d d C" "length x = d" "length y = d"
  shows "dot y (matvec (matmul E (mat_transpose C)) x)
           = dot (matvec (mat_transpose E) y) (matvec (mat_transpose C) x)"
proof -
  note T = transpose_mat[OF assms(2)]
  have "matvec (matmul E (mat_transpose C)) x = matvec E (matvec (mat_transpose C) x)"
    by (rule matvec_matmul[OF assms(1) T assms(3)])
  then show ?thesis
    using dot_matvec_right[OF assms(1) matvec_length[OF T] assms(4), of x] by simp
qed

lemma dot_vec_sub_right:
  "length u = n \<Longrightarrow> length v = n \<Longrightarrow> length w = n \<Longrightarrow> dot w (vec_sub u v) = dot w u - dot w v"
  by (simp add: dot_sum[of _ n] vec_sub_length vec_sub_nth sum_subtractf right_diff_distrib)

lemma dot_uminus_left: "length u = n \<Longrightarrow> length v = n \<Longrightarrow> dot (map uminus u) v = - dot u v"
  by (simp add: dot_sum[of _ n] sum_negf)

lemma dot_uminus_right: "length u = n \<Longrightarrow> length v = n \<Longrightarrow> dot u (map uminus v) = - dot u v"
  by (simp add: dot_sum[of _ n] sum_negf)

lemma dot_zero_left: "length v = n \<Longrightarrow> dot (replicate n 0) v = 0"
  by (simp add: dot_sum[of _ n])

lemma matvec_zero: "is_mat d d M \<Longrightarrow> matvec M (replicate d 0) = replicate d 0"
  by (rule vec_eqI[of _ d]) (simp_all add: matvec_length matvec_nth)

lemma dot_self_nonneg: "0 \<le> dot x x"
proof -
  have "dot x x = (\<Sum>k<length x. x ! k * x ! k)" by (rule dot_sum) simp_all
  also have "0 \<le> \<dots>" by (intro sum_nonneg) simp
  finally show ?thesis .
qed

lemma dot_self_zero: "dot x x = 0 \<Longrightarrow> x = replicate (length x) 0"
proof -
  assume z: "dot x x = 0"
  have "dot x x = (\<Sum>k<length x. x ! k * x ! k)" by (rule dot_sum) simp_all
  with z have "(\<Sum>k<length x. x ! k * x ! k) = 0" by simp
  then have "\<forall>k\<in>{..<length x}. x ! k * x ! k = 0"
    by (subst (asm) sum_nonneg_eq_0_iff) simp_all
  then show ?thesis by (intro nth_equalityI) simp_all
qed

section \<open>The quadratic form of a block-tridiagonal operand\<close>

lemma tri_quad_Cons:
  "tri_quad (M # D # Ds) (L # Ls) (x # y # ys)
     = dot x (matvec M x) + 2 * dot y (matvec L x) + tri_quad (D # Ds) Ls (y # ys)"
  by (simp add: tri_quad_def sum.lessThan_Suc_shift[of _ "Suc (length Ds)"]
        sum.lessThan_Suc_shift[of _ "length Ls"] algebra_simps del: sum.lessThan_Suc)

lemma tri_quad_single: "tri_quad [M] [] [x] = dot x (matvec M x)"
  by (simp add: tri_quad_def)

lemma tri_quad_first_block:
  "tri_quad (M # Ds) Ls (x # xs) - dot x (matvec M x)
     = tri_quad (M' # Ds) Ls (x # xs) - dot x (matvec M' x)"
  by (simp add: tri_quad_def sum.lessThan_Suc_shift[of _ "length Ds"] del: sum.lessThan_Suc)

lemma tri_quad_zero_tail:
  assumes "list_all (is_mat d d) Ds" "list_all (is_mat d d) Ls" "length Ls = length Ds"
  shows "tri_quad (M # Ds) Ls (x # replicate (length Ds) (replicate d 0)) = dot x (matvec M x)"
proof -
  let ?z = "replicate d (0::real)"
  have D: "dot ((x # replicate (length Ds) ?z) ! Suc t) v = 0" if "t < length Ds" "length v = d" for t v
    using that by (simp add: dot_zero_left)
  have "(\<Sum>t<length Ls. dot ((x # replicate (length Ds) ?z) ! Suc t)
           (matvec (Ls ! t) ((x # replicate (length Ds) ?z) ! t))) = 0"
  proof (intro sum.neutral ballI)
    fix t assume "t \<in> {..<length Ls}"
    then have t: "t < length Ds" "is_mat d d (Ls ! t)" using assms by (simp_all add: list_all_length)
    show "dot ((x # replicate (length Ds) ?z) ! Suc t)
           (matvec (Ls ! t) ((x # replicate (length Ds) ?z) ! t)) = 0"
      by (rule D[OF t(1) matvec_length[OF t(2)]])
  qed
  moreover have "(\<Sum>t<length Ds. dot (replicate (length Ds) ?z ! t)
           (matvec (Ds ! t) (replicate (length Ds) ?z ! t))) = 0"
  proof (intro sum.neutral ballI)
    fix t assume "t \<in> {..<length Ds}"
    then have t: "t < length Ds" "is_mat d d (Ds ! t)" using assms by (simp_all add: list_all_length)
    show "dot (replicate (length Ds) ?z ! t) (matvec (Ds ! t) (replicate (length Ds) ?z ! t)) = 0"
      using t by (simp add: dot_zero_left matvec_length[OF t(2)])
  qed
  ultimately show ?thesis
    by (simp add: tri_quad_def sum.lessThan_Suc_shift[of _ "length Ds"] del: sum.lessThan_Suc)
qed

section \<open>The factorisation of a positive definite operand succeeds\<close>

lemma schur_quadratic_form:
  assumes C: "is_mat d d C" and E: "is_mat d d E" and D: "is_mat d d D"
    and x: "length x = d" and y: "length y = d"
    and sol: "matvec (mat_transpose C) x = map uminus (matvec (mat_transpose E) y)"
  shows "dot x (matvec (matmul C (mat_transpose C)) x)
           + 2 * dot y (matvec (matmul E (mat_transpose C)) x)
           + dot y (matvec D y)
         = dot y (matvec (mat_sub D (matmul E (mat_transpose E))) y)"
proof -
  define w where "w = matvec (mat_transpose E) y"
  have lw: "length w = d" unfolding w_def by (rule matvec_length[OF transpose_mat[OF E]])
  have 1: "dot x (matvec (matmul C (mat_transpose C)) x) = dot w w"
    using quad_gram[OF C x] lw by (simp add: sol w_def[symmetric] dot_uminus_left[of _ d] dot_uminus_right[of _ d])
  have 2: "dot y (matvec (matmul E (mat_transpose C)) x) = - dot w w"
    using bilinear_gram[OF E C x y] lw by (simp add: sol w_def[symmetric] dot_uminus_right[of _ d])
  note G = gram_mat[OF E]
  have "matvec (mat_sub D (matmul E (mat_transpose E))) y
          = vec_sub (matvec D y) (matvec (matmul E (mat_transpose E)) y)"
    by (rule matvec_mat_sub[OF D G y])
  then have 3: "dot y (matvec (mat_sub D (matmul E (mat_transpose E))) y)
          = dot y (matvec D y) - dot w w"
    using dot_vec_sub_right[OF matvec_length[OF D] matvec_length[OF G] y, of y y]
      quad_gram[OF E y] by (simp add: w_def)
  show ?thesis using 1 2 3 by simp
qed

lemma chol_rec_succeeds:
  assumes la: "linalg_ok d la"
  shows "is_mat d d M \<Longrightarrow> mat_transpose M = M
     \<Longrightarrow> list_all (\<lambda>D. is_mat d d D \<and> mat_transpose D = D) Ds
     \<Longrightarrow> list_all (is_mat d d) Ls \<Longrightarrow> length Ls = length Ds
     \<Longrightarrow> blk_pos_def d (M # Ds) Ls
     \<Longrightarrow> \<exists>Cs Es. chol_rec la M Ds Ls = Inr (Cs, Es)"
proof (induction Ds arbitrary: M Ls)
  case Nil
  have "pos_def d M"
    unfolding pos_def_def
  proof (intro allI impI)
    fix x :: vec assume x: "length x = d \<and> x \<noteq> replicate d 0"
    then have "0 < tri_quad [M] Ls [x]"
      using Nil.prems(6) unfolding blk_pos_def_def by (elim allE[of _ "[x]"]) simp
    then show "0 < dot x (matvec M x)" using Nil.prems(5) by (simp add: tri_quad_single)
  qed
  then have "spd d M" using Nil.prems(1,2) by (simp add: spd_def)
  from cholesky_succeeds[OF la this] show ?case by auto
next
  case (Cons D Ds)
  from Cons.prems(5) obtain L Ls' where Ls: "Ls = L # Ls'" by (cases Ls) auto
  have D: "is_mat d d D" "mat_transpose D = D"
    and Dsok: "list_all (\<lambda>D. is_mat d d D \<and> mat_transpose D = D) Ds"
    using Cons.prems(3) by simp_all
  have Dsmat: "list_all (is_mat d d) (D # Ds)"
    using Cons.prems(3) by (simp add: list_all_length)
  have L: "is_mat d d L" and Lsok: "list_all (is_mat d d) Ls'" and len: "length Ls' = length Ds"
    using Cons.prems(4,5) Ls by simp_all
  have "pos_def d M"
    unfolding pos_def_def
  proof (intro allI impI)
    fix x :: vec assume x: "length x = d \<and> x \<noteq> replicate d 0"
    let ?xs = "x # replicate (length (D # Ds)) (replicate d 0)"
    have "0 < tri_quad (M # D # Ds) Ls ?xs"
      using Cons.prems(6) x unfolding blk_pos_def_def by (elim allE[of _ ?xs]) auto
    then show "0 < dot x (matvec M x)"
      using tri_quad_zero_tail[OF Dsmat Cons.prems(4), of M x] Cons.prems(5) by simp
  qed
  then have "spd d M" using Cons.prems(1,2) by (simp add: spd_def)
  from cholesky_succeeds[OF la this] obtain C where C: "cholesky la M = Some C" by auto
  have CF: "chol_factor d C" and CC: "matmul C (mat_transpose C) = M"
    using cholesky_factor[OF la Cons.prems(1,2) C] by simp_all
  note Cm = chol_factor_mat[OF CF]
  define E where "E = mat_transpose (matrix_triangular_solve la C (mat_transpose L) True False)"
  define M' where "M' = mat_sub D (matmul E (mat_transpose E))"
  have E: "is_mat d d E" and EC: "matmul E (mat_transpose C) = L"
    using sub_diagonal_step[OF la CF L] by (simp_all add: E_def)
  have M': "is_mat d d M'" "mat_transpose M' = M'"
    unfolding M'_def by (rule schur_complement_symmetric[OF D E])+
  have "blk_pos_def d (M' # Ds) Ls'"
    unfolding blk_pos_def_def
  proof (intro allI impI)
    fix ys :: "vec list" assume ys: "length ys = length (M' # Ds) \<and> (\<forall>v\<in>set ys. length v = d)
        \<and> (\<exists>v\<in>set ys. v \<noteq> replicate d 0)"
    then obtain y ys' where yy: "ys = y # ys'" by (cases ys) auto
    have y: "length y = d" using ys yy by simp
    define x where "x = tri_solve la C (map uminus (matvec (mat_transpose E) y)) True"
    have lw: "length (map uminus (matvec (mat_transpose E) y)) = d"
      by (simp add: matvec_length[OF transpose_mat[OF E]])
    have x: "length x = d"
      and sol: "matvec (mat_transpose C) x = map uminus (matvec (mat_transpose E) y)"
      using tri_solve_backward[OF la CF lw] by (simp_all add: x_def)
    have "0 < tri_quad (M # D # Ds) Ls (x # ys)"
      using Cons.prems(6) ys x unfolding blk_pos_def_def by (elim allE[of _ "x # ys"]) auto
    also have "tri_quad (M # D # Ds) Ls (x # ys)
        = dot x (matvec M x) + 2 * dot y (matvec L x) + tri_quad (D # Ds) Ls' (y # ys')"
      by (simp add: Ls yy tri_quad_Cons)
    also have "\<dots> = dot x (matvec M x) + 2 * dot y (matvec L x) + dot y (matvec D y)
        + (tri_quad (M' # Ds) Ls' (y # ys') - dot y (matvec M' y))"
      using tri_quad_first_block[of D Ds Ls' y ys' M'] by simp
    also have "dot x (matvec M x) + 2 * dot y (matvec L x) + dot y (matvec D y)
        = dot y (matvec M' y)"
      using schur_quadratic_form[OF Cm E D(1) x y sol] by (simp add: CC EC M'_def)
    finally show "0 < tri_quad (M' # Ds) Ls' ys" by (simp add: yy)
  qed
  from Cons.IH[OF M' Dsok Lsok len this] obtain Cs Es where
    "chol_rec la M' Ds Ls' = Inr (Cs, Es)" by auto
  then show ?case using C by (simp add: Ls E_def M'_def Let_def)
qed

section \<open>The dense operand applied to a block vector\<close>

lemma matvec_zero_mat: "length v = d \<Longrightarrow> a < d \<Longrightarrow> matvec (zero_mat d) v ! a = 0"
  by (simp add: matvec_nth[OF zero_mat_mat] zero_mat_nth)

lemma tridiag_matvec_nth:
  assumes D: "list_all (is_mat d d) D" and L: "list_all (is_mat d d) L"
    and len: "length L + 1 = length D"
    and xs: "length xs = length D" "\<forall>x\<in>set xs. length x = d"
    and i: "i < length D * d"
  shows "matvec (dense_tridiag d D L) (concat xs) ! i =
           matvec (D ! (i div d)) (xs ! (i div d)) ! (i mod d)
         + (if 0 < i div d
            then matvec (L ! (i div d - 1)) (xs ! (i div d - 1)) ! (i mod d) else 0)
         + (if Suc (i div d) < length D
            then matvec (mat_transpose (L ! (i div d))) (xs ! Suc (i div d)) ! (i mod d) else 0)"
proof -
  let ?T = "length D"
  let ?G = "tri_block d D L"
  note b = div_mod_bounds[OF i]
  define t where "t = i div d"
  define a where "a = i mod d"
  have t: "t < ?T" and a: "a < d" using b by (simp_all add: t_def a_def)
  have G: "is_mat d d (?G t s)" if "t < ?T" "s < ?T" for t s
    by (rule tri_block_mat[OF D L len that])
  have lx: "length (xs ! s) = d" if "s < ?T" for s using xs that by simp
  define h where "h s = matvec (?G t s) (xs ! s) ! a" for s
  have zero: "h s = 0" if "s < ?T" "s \<noteq> t" "Suc s \<noteq> t" "s \<noteq> Suc t" for s
    using that a lx by (simp add: h_def tri_block_def matvec_zero_mat)
  have "matvec (dense_tridiag d D L) (concat xs) ! i = (\<Sum>s<?T. h s)"
    unfolding dense_tridiag_def h_def t_def a_def
    by (rule matvec_dense_concat[OF G xs i])
  also have "\<dots> = h t + (if 0 < t then h (t - 1) else 0) + (if Suc t < ?T then h (Suc t) else 0)"
    by (rule sum_three_terms[OF t zero])
  also have "h t = matvec (D ! t) (xs ! t) ! a" by (simp add: h_def tri_block_def)
  also have "(if 0 < t then h (t - 1) else 0)
      = (if 0 < t then matvec (L ! (t - 1)) (xs ! (t - 1)) ! a else 0)"
    by (auto simp: h_def tri_block_def)
  also have "(if Suc t < ?T then h (Suc t) else 0)
      = (if Suc t < ?T then matvec (mat_transpose (L ! t)) (xs ! Suc t) ! a else 0)"
    by (auto simp: h_def tri_block_def)
  finally show ?thesis by (simp add: t_def a_def)
qed

lemma sum_shift_down:
  fixes g :: "nat \<Rightarrow> real"
  shows "(\<Sum>t<Suc n. if 0 < t then g (t - 1) else 0) = (\<Sum>t<n. g t)"
  by (simp add: sum.lessThan_Suc_shift del: sum.lessThan_Suc)

lemma sum_drop_last:
  fixes g :: "nat \<Rightarrow> real"
  shows "(\<Sum>t<Suc n. if Suc t < Suc n then g t else 0) = (\<Sum>t<n. g t)"
  by simp

lemma tridiag_quadratic_form:
  assumes D: "list_all (is_mat d d) D" and L: "list_all (is_mat d d) L"
    and len: "length L + 1 = length D"
    and xs: "length xs = length D" "\<forall>x\<in>set xs. length x = d"
  shows "dot (concat xs) (matvec (dense_tridiag d D L) (concat xs)) = tri_quad D L xs"
proof -
  let ?T = "length D"
  let ?S = "dense_tridiag d D L"
  have SM: "is_mat (?T * d) (?T * d) ?S" unfolding dense_tridiag_def by (rule dense_mat)
  have TS: "length D = Suc (length L)" using len by simp
  have lc: "length (concat xs) = ?T * d" using length_concat_uniform[OF xs(2)] xs(1) by simp
  have lx: "length (xs ! s) = d" if "s < ?T" for s using xs that by simp
  have Dm: "is_mat d d (D ! t)" if "t < ?T" for t using D that by (simp add: list_all_length)
  have Lm: "is_mat d d (L ! t)" if "t < length L" for t using L that by (simp add: list_all_length)
  define q where "q t = dot (xs ! t) (matvec (D ! t) (xs ! t))" for t
  define g where "g t = dot (xs ! Suc t) (matvec (L ! t) (xs ! t))" for t
  define row where "row t a =
      matvec (D ! t) (xs ! t) ! a
      + (if 0 < t then matvec (L ! (t - 1)) (xs ! (t - 1)) ! a else 0)
      + (if Suc t < ?T then matvec (mat_transpose (L ! t)) (xs ! Suc t) ! a else 0)" for t a
  have "dot (concat xs) (matvec ?S (concat xs))
      = (\<Sum>k<?T * d. concat xs ! k * matvec ?S (concat xs) ! k)"
    by (rule dot_sum[OF lc matvec_length[OF SM]])
  also have "\<dots> = (\<Sum>k<?T * d. xs ! (k div d) ! (k mod d) * row (k div d) (k mod d))"
  proof (intro sum.cong refl)
    fix k assume "k \<in> {..<?T * d}"
    then have k: "k < ?T * d" by simp
    then have k': "k < length xs * d" using xs(1) by simp
    show "concat xs ! k * matvec ?S (concat xs) ! k
        = xs ! (k div d) ! (k mod d) * row (k div d) (k mod d)"
      unfolding row_def
      by (simp only: concat_nth_uniform[OF xs(2) k'] tridiag_matvec_nth[OF D L len xs k])
  qed
  also have "\<dots> = (\<Sum>t<?T. \<Sum>a<d. xs ! t ! a * row t a)"
    by (rule sum_div_mod)
  also have "\<dots> = (\<Sum>t<?T. q t + (if 0 < t then g (t - 1) else 0) + (if Suc t < ?T then g t else 0))"
  proof (intro sum.cong refl)
    fix t assume "t \<in> {..<?T}"
    then have t: "t < ?T" by simp
    have 1: "(\<Sum>a<d. xs ! t ! a * matvec (D ! t) (xs ! t) ! a) = q t"
      unfolding q_def by (rule dot_sum[OF lx[OF t] matvec_length[OF Dm[OF t]], symmetric])
    have 2: "(\<Sum>a<d. xs ! t ! a * matvec (L ! (t - 1)) (xs ! (t - 1)) ! a) = g (t - 1)" if "0 < t"
    proof -
      have "t - 1 < length L" using that t len by simp
      then show ?thesis
        unfolding g_def using that
        by (simp add: dot_sum[OF lx[OF t] matvec_length[OF Lm]])
    qed
    have 3: "(\<Sum>a<d. xs ! t ! a * matvec (mat_transpose (L ! t)) (xs ! Suc t) ! a) = g t"
      if "Suc t < ?T"
    proof -
      have tl: "t < length L" using that len by simp
      have "(\<Sum>a<d. xs ! t ! a * matvec (mat_transpose (L ! t)) (xs ! Suc t) ! a)
          = dot (xs ! t) (matvec (mat_transpose (L ! t)) (xs ! Suc t))"
        by (rule dot_sum[OF lx[OF t] matvec_length[OF transpose_mat[OF Lm[OF tl]]], symmetric])
      also have "\<dots> = dot (matvec (L ! t) (xs ! t)) (xs ! Suc t)"
        by (rule dot_matvec_transpose[OF Lm[OF tl] lx[OF t] lx[OF that], symmetric])
      also have "\<dots> = g t"
        unfolding g_def by (rule dot_commute[OF matvec_length[OF Lm[OF tl]] lx[OF that]])
      finally show ?thesis .
    qed
    have "(\<Sum>a<d. xs ! t ! a * row t a)
        = (\<Sum>a<d. xs ! t ! a * matvec (D ! t) (xs ! t) ! a)
        + (if 0 < t then (\<Sum>a<d. xs ! t ! a * matvec (L ! (t - 1)) (xs ! (t - 1)) ! a) else 0)
        + (if Suc t < ?T
           then (\<Sum>a<d. xs ! t ! a * matvec (mat_transpose (L ! t)) (xs ! Suc t) ! a) else 0)"
      by (simp add: row_def distrib_left sum.distrib)
    then show "(\<Sum>a<d. xs ! t ! a * row t a)
        = q t + (if 0 < t then g (t - 1) else 0) + (if Suc t < ?T then g t else 0)"
      using 1 2 3 by simp
  qed
  also have "\<dots> = (\<Sum>t<?T. q t) + (\<Sum>t<?T. if 0 < t then g (t - 1) else 0)
      + (\<Sum>t<?T. if Suc t < ?T then g t else 0)"
    by (simp add: sum.distrib)
  also have "(\<Sum>t<?T. if 0 < t then g (t - 1) else 0) = (\<Sum>t<length L. g t)"
    unfolding TS by (rule sum_shift_down)
  also have "(\<Sum>t<?T. if Suc t < ?T then g t else 0) = (\<Sum>t<length L. g t)"
    unfolding TS by (rule sum_drop_last)
  finally show ?thesis by (simp add: tri_quad_def q_def g_def)
qed

section \<open>Definiteness of the dense operand and of its blocks\<close>

lemma block_index: "a < d \<Longrightarrow> (t * d + a) div d = t \<and> (t * d + a) mod d = a" for a d t :: nat
  by simp

lemma block_index_bound: "t < T \<Longrightarrow> a < d \<Longrightarrow> t * d + a < T * d" for a d t T :: nat
proof -
  assume t: "t < T" and a: "a < d"
  have "t * d + a < t * d + d" using a by simp
  also have "\<dots> = Suc t * d" by simp
  also have "\<dots> \<le> T * d" using t by (intro mult_le_mono1) simp
  finally show ?thesis .
qed

lemma tri_block_symmetric:
  assumes D: "\<forall>t<length D. is_mat d d (D ! t) \<and> mat_transpose (D ! t) = D ! t"
    and L: "list_all (is_mat d d) L" and len: "length L + 1 = length D"
    and t: "t < length D" and s: "s < length D" and a: "a < d" and b: "b < d"
  shows "tri_block d D L s t ! b ! a = tri_block d D L t s ! a ! b"
proof -
  have Lm: "is_mat d d (L ! k)" if "k < length L" for k using L that by (simp add: list_all_length)
  have Ds: "D ! t ! b ! a = D ! t ! a ! b"
    using D t transpose_nth[of d "D ! t" a b] a b by simp
  consider (diag) "s = t" | (upper) "s = Suc t" | (lower) "Suc s = t"
    | (far) "s \<noteq> t" "s \<noteq> Suc t" "Suc s \<noteq> t" by blast
  then show ?thesis
  proof cases
    case diag
    then show ?thesis using Ds by (simp add: tri_block_def)
  next
    case upper
    then have "t < length L" using s len by simp
    then show ?thesis using upper a b by (simp add: tri_block_def transpose_nth[OF Lm])
  next
    case lower
    then have "s < length L" using t len by simp
    then show ?thesis using lower a b by (auto simp: tri_block_def transpose_nth[OF Lm])
  next
    case far
    then show ?thesis using a b by (auto simp: tri_block_def zero_mat_nth)
  qed
qed

lemma dense_tridiag_symmetric:
  assumes D: "\<forall>t<length D. is_mat d d (D ! t) \<and> mat_transpose (D ! t) = D ! t"
    and L: "list_all (is_mat d d) L" and len: "length L + 1 = length D"
  shows "mat_transpose (dense_tridiag d D L) = dense_tridiag d D L"
proof (rule mat_eqI[of "length D * d" "length D * d"])
  let ?S = "dense_tridiag d D L"
  have SM: "is_mat (length D * d) (length D * d) ?S" unfolding dense_tridiag_def by (rule dense_mat)
  show "is_mat (length D * d) (length D * d) (mat_transpose ?S)" by (rule transpose_mat[OF SM])
  show "is_mat (length D * d) (length D * d) ?S" by (rule SM)
  fix i j assume i: "i < length D * d" and j: "j < length D * d"
  note bi = div_mod_bounds[OF i] and bj = div_mod_bounds[OF j]
  have "mat_transpose ?S ! i ! j = ?S ! j ! i" by (rule transpose_nth[OF SM i j])
  also have "\<dots> = tri_block d D L (j div d) (i div d) ! (j mod d) ! (i mod d)"
    using i j by (simp add: dense_tridiag_def dense_nth)
  also have "\<dots> = tri_block d D L (i div d) (j div d) ! (i mod d) ! (j mod d)"
    using bi bj by (intro tri_block_symmetric[OF D L len]) simp_all
  also have "\<dots> = ?S ! i ! j"
    using i j by (simp add: dense_tridiag_def dense_nth)
  finally show "mat_transpose ?S ! i ! j = ?S ! i ! j" .
qed

lemma dense_symmetric_blocks:
  assumes S: "mat_transpose (dense_tridiag d D L) = dense_tridiag d D L"
    and D: "list_all (is_mat d d) D" and t: "t < length D"
  shows "mat_transpose (D ! t) = D ! t"
proof (rule mat_eqI[of d d])
  let ?S = "dense_tridiag d D L"
  have SM: "is_mat (length D * d) (length D * d) ?S" unfolding dense_tridiag_def by (rule dense_mat)
  have Dm: "is_mat d d (D ! t)" using D t by (simp add: list_all_length)
  show "is_mat d d (mat_transpose (D ! t))" by (rule transpose_mat[OF Dm])
  show "is_mat d d (D ! t)" by (rule Dm)
  fix a b assume a: "a < d" and b: "b < d"
  note ia = block_index_bound[OF t a] and ib = block_index_bound[OF t b]
  have "?S ! (t * d + a) ! (t * d + b) = mat_transpose ?S ! (t * d + a) ! (t * d + b)"
    using S by simp
  also have "\<dots> = ?S ! (t * d + b) ! (t * d + a)" by (rule transpose_nth[OF SM ia ib])
  finally have "D ! t ! a ! b = D ! t ! b ! a"
    using ia ib a b by (simp add: dense_tridiag_def dense_nth tri_block_def)
  then show "mat_transpose (D ! t) ! a ! b = D ! t ! a ! b"
    using a b by (simp add: transpose_nth[OF Dm])
qed

lemma concat_nonzero:
  fixes xs :: "vec list"
  assumes xs: "\<forall>v\<in>set xs. length v = d" and nz: "\<exists>v\<in>set xs. v \<noteq> replicate d 0"
  shows "concat xs \<noteq> replicate (length xs * d) 0"
proof
  assume z: "concat xs = replicate (length xs * d) 0"
  from nz obtain t where t: "t < length xs" and v: "xs ! t \<noteq> replicate d 0"
    by (auto simp: in_set_conv_nth)
  have "xs ! t = replicate d 0"
  proof (rule vec_eqI[of _ d])
    show "length (xs ! t) = d" using xs t by simp
    show "length (replicate d (0::real)) = d" by simp
    fix a assume a: "a < d"
    note k = block_index_bound[OF t a]
    have "concat xs ! (t * d + a) = xs ! t ! a"
      using concat_nth_uniform[OF xs k] a by simp
    then show "xs ! t ! a = replicate d 0 ! a" using z k a by simp
  qed
  with v show False by simp
qed

lemma dense_pos_def_blocks:
  assumes P: "pos_def (length D * d) (dense_tridiag d D L)"
    and D: "list_all (is_mat d d) D" and L: "list_all (is_mat d d) L"
    and len: "length L + 1 = length D"
  shows "blk_pos_def d D L"
  unfolding blk_pos_def_def
proof (intro allI impI)
  fix xs :: "vec list"
  assume xs: "length xs = length D \<and> (\<forall>v\<in>set xs. length v = d) \<and> (\<exists>v\<in>set xs. v \<noteq> replicate d 0)"
  then have l: "length xs = length D" and u: "\<forall>v\<in>set xs. length v = d"
    and nz: "\<exists>v\<in>set xs. v \<noteq> replicate d 0" by simp_all
  have "length (concat xs) = length D * d" using length_concat_uniform[OF u] l by simp
  moreover have "concat xs \<noteq> replicate (length D * d) 0" using concat_nonzero[OF u nz] l by simp
  ultimately have "0 < dot (concat xs) (matvec (dense_tridiag d D L) (concat xs))"
    using P unfolding pos_def_def by blast
  then show "0 < tri_quad D L xs"
    by (simp add: tridiag_quadratic_form[OF D L len l u])
qed

text \<open>A flat vector cut into \<open>T\<close> blocks of length \<open>d\<close>.\<close>

lemma concat_blocks:
  fixes x :: vec
  assumes "length x = T * d"
  shows "concat (map (\<lambda>t. map (\<lambda>a. x ! (t * d + a)) [0..<d]) [0..<T]) = x"
proof (rule nth_equalityI)
  let ?xs = "map (\<lambda>t. map (\<lambda>a. x ! (t * d + a)) [0..<d]) [0..<T]"
  have u: "\<forall>v\<in>set ?xs. length v = d" by auto
  have l: "length (concat ?xs) = length ?xs * d" by (rule length_concat_uniform[OF u])
  then show "length (concat ?xs) = length x" using assms by simp
  fix k assume "k < length (concat ?xs)"
  then have k: "k < T * d" using l by simp
  then have k': "k < length ?xs * d" by simp
  note b = div_mod_bounds[OF k]
  have "concat ?xs ! k = ?xs ! (k div d) ! (k mod d)" by (rule concat_nth_uniform[OF u k'])
  also have "\<dots> = x ! (k div d * d + k mod d)" using b by simp
  finally show "concat ?xs ! k = x ! k" by simp
qed

lemma blocks_pos_def_dense:
  assumes B: "blk_pos_def d D L"
    and D: "list_all (is_mat d d) D" and L: "list_all (is_mat d d) L"
    and len: "length L + 1 = length D"
  shows "pos_def (length D * d) (dense_tridiag d D L)"
  unfolding pos_def_def
proof (intro allI impI)
  fix x :: vec
  assume x: "length x = length D * d \<and> x \<noteq> replicate (length D * d) 0"
  define xs where "xs = map (\<lambda>t. map (\<lambda>a. x ! (t * d + a)) [0..<d]) [0..<length D]"
  have c: "concat xs = x" unfolding xs_def using x by (intro concat_blocks) simp
  have l: "length xs = length D" and u: "\<forall>v\<in>set xs. length v = d" by (auto simp: xs_def)
  have nz: "\<exists>v\<in>set xs. v \<noteq> replicate d 0"
  proof (rule ccontr)
    assume "\<not> (\<exists>v\<in>set xs. v \<noteq> replicate d 0)"
    then have z: "\<And>t. t < length D \<Longrightarrow> xs ! t = replicate d 0" using l by simp
    have "x = replicate (length D * d) 0"
    proof (rule vec_eqI[of _ "length D * d"])
      show "length x = length D * d" using x by simp
      show "length (replicate (length D * d) (0::real)) = length D * d" by simp
      fix k assume k: "k < length D * d"
      note b = div_mod_bounds[OF k]
      have "x ! k = concat xs ! k" by (simp add: c)
      also have "\<dots> = xs ! (k div d) ! (k mod d)"
        using concat_nth_uniform[OF u, of k] k l by simp
      also have "\<dots> = 0" using z[of "k div d"] b by simp
      finally show "x ! k = replicate (length D * d) 0 ! k" using k by simp
    qed
    with x show False by simp
  qed
  have "0 < tri_quad D L xs" using B l u nz unfolding blk_pos_def_def by blast
  then show "0 < dot x (matvec (dense_tridiag d D L) x)"
    using tridiag_quadratic_form[OF D L len l u] by (simp add: c)
qed

section \<open>The \<open>1 \<times> 1\<close> kernels meet the contract\<close>

lemma is_mat_1: "is_mat 1 1 M \<Longrightarrow> \<exists>x. M = [[x]]"
  by (cases M; cases "hd M") (auto simp: is_mat_def)

lemma length_1: "length b = 1 \<Longrightarrow> \<exists>x. b = [x]"
  by (cases b) auto

lemma spd_1: "spd 1 [[x]] \<Longrightarrow> 0 < x"
proof -
  assume "spd 1 [[x]]"
  then have "pos_def 1 [[x]]" by (simp add: spd_def)
  then have "0 < dot [1] (matvec [[x]] [1])"
    unfolding pos_def_def by (elim allE[of _ "[1]"]) simp
  then show ?thesis by (simp add: dot_def matvec_def)
qed

lemma chol_factor_1: "chol_factor (Suc 0) [[c]] \<longleftrightarrow> 0 < c"
  by (simp add: chol_factor_def is_mat_def)

lemma scalar_linalg_ok: "linalg_ok 1 scalar_linalg"
  unfolding linalg_ok_def
proof (intro conjI allI impI)
  fix M :: mat assume "spd 1 M"
  then obtain x where "M = [[x]]" "0 < x" using is_mat_1[of M] spd_1 by (auto simp: spd_def)
  then show "cholesky scalar_linalg M \<noteq> None" by (simp add: scalar_linalg_def)
next
  fix M C :: mat assume a: "is_mat 1 1 M \<and> mat_transpose M = M \<and> cholesky scalar_linalg M = Some C"
  then obtain x where M: "M = [[x]]" using is_mat_1[of M] by auto
  with a have x: "0 < x" and C: "C = [[sqrt x]]"
    by (auto simp: scalar_linalg_def split: if_splits)
  show "chol_factor 1 C" using x C by (simp add: chol_factor_1)
  show "matmul C (mat_transpose C) = M"
    using x by (simp add: C M matmul_def mat_transpose_def dot_def)
next
  fix C B :: mat and adjoint assume a: "chol_factor 1 C \<and> is_mat 1 1 B"
  then obtain c b where C: "C = [[c]]" and B: "B = [[b]]"
    using is_mat_1[of C] is_mat_1[of B] by (auto simp: chol_factor_def)
  with a have c: "0 < c" by (simp add: chol_factor_1)
  show "is_mat 1 1 (matrix_triangular_solve scalar_linalg C B True adjoint)"
    by (simp add: C B scalar_linalg_def is_mat_def)
  show "matmul (if adjoint then mat_transpose C else C)
          (matrix_triangular_solve scalar_linalg C B True adjoint) = B"
    using c by (simp add: C B scalar_linalg_def matmul_def mat_transpose_def dot_def)
next
  fix C and b :: vec and adjoint assume a: "chol_factor 1 C \<and> length b = 1"
  then obtain c b0 where C: "C = [[c]]" and b: "b = [b0]"
    using is_mat_1[of C] length_1[of b] by (auto simp: chol_factor_def)
  with a have c: "0 < c" by (simp add: chol_factor_1)
  show "length (tri_solve scalar_linalg C b adjoint) = 1"
    by (simp add: C b tri_solve_def scalar_linalg_def)
  show "matvec (if adjoint then mat_transpose C else C) (tri_solve scalar_linalg C b adjoint) = b"
    using c by (simp add: C b tri_solve_def scalar_linalg_def matvec_def mat_transpose_def)
next
  fix M :: mat assume s: "spd 1 M"
  then obtain x where M: "M = [[x]]" and x: "0 < x"
    using is_mat_1[of M] spd_1 by (auto simp: spd_def)
  show "is_mat 1 1 (matrix_inverse scalar_linalg M)"
    by (simp add: M scalar_linalg_def is_mat_def)
  show "matmul M (matrix_inverse scalar_linalg M) = eye 1"
    using x by (simp add: M scalar_linalg_def matmul_def mat_transpose_def dot_def eye_def)
  show "matmul (matrix_inverse scalar_linalg M) M = eye 1"
    using x by (simp add: M scalar_linalg_def matmul_def mat_transpose_def dot_def eye_def)
qed

section \<open>Reconstruction of the operand from its block Cholesky factor\<close>

lemma blk_tridiag_chol_factorises:
  assumes la: "linalg_ok d la" and d: "0 < d" and ne: "D \<noteq> []"
    and len: "length L + 1 = length D"
    and shapes: "list_all (is_mat d d) (D @ L)"
    and spd: "spd (length D * d) (dense_tridiag d D L)"
  shows "\<exists>C E. blk_tridiag_chol la D L = Inr (C, E)
     \<and> length C = length D \<and> length E = length L
     \<and> list_all (chol_factor d) C \<and> list_all (is_mat d d) E
     \<and> matmul (C ! 0) (mat_transpose (C ! 0)) = D ! 0
     \<and> (\<forall>t<length E.
             matmul (E ! t) (mat_transpose (C ! t)) = L ! t
           \<and> mat_add (matmul (C ! Suc t) (mat_transpose (C ! Suc t)))
                (matmul (E ! t) (mat_transpose (E ! t))) = D ! Suc t)"
proof -
  from ne obtain D1 Ds where D: "D = D1 # Ds" by (cases D) auto
  have Dm: "list_all (is_mat d d) D" and Lm: "list_all (is_mat d d) L"
    using shapes by simp_all
  have D1: "is_mat d d D1" and Dsm: "list_all (is_mat d d) Ds" using Dm D by simp_all
  have lenL: "length L = length Ds" using len D by simp
  have sym: "mat_transpose (dense_tridiag d D L) = dense_tridiag d D L"
    and pd: "pos_def (length D * d) (dense_tridiag d D L)"
    using spd by (simp_all add: spd_def)
  have symD: "mat_transpose (D ! t) = D ! t" if "t < length D" for t
    by (rule dense_symmetric_blocks[OF sym Dm that])
  have D1s: "mat_transpose D1 = D1" using symD[of 0] D by simp
  have Dss: "list_all (\<lambda>D. is_mat d d D \<and> mat_transpose D = D) Ds"
    unfolding list_all_length
  proof (intro allI impI)
    fix t assume t: "t < length Ds"
    then show "is_mat d d (Ds ! t) \<and> mat_transpose (Ds ! t) = Ds ! t"
      using Dsm symD[of "Suc t"] D by (simp add: list_all_length)
  qed
  have bpd: "blk_pos_def d (D1 # Ds) L"
    using dense_pos_def_blocks[OF pd Dm Lm len] D by simp
  have call: "blk_tridiag_chol la D L = chol_rec la D1 Ds L"
  proof -
    have "D1 \<noteq> []" using D1 d by (auto simp: is_mat_def)
    moreover have "length D1 = d" using D1 by (simp add: is_mat_def)
    ultimately show ?thesis
      using shapes lenL by (simp add: blk_tridiag_chol_def D)
  qed
  from chol_rec_succeeds[OF la D1 D1s Dss Lm lenL bpd] obtain C E where
    rec: "chol_rec la D1 Ds L = Inr (C, E)" by auto
  note blocks = chol_rec_blocks[OF la D1 D1s Dss Lm lenL rec]
  show ?thesis
    using blocks call rec lenL by (intro exI[of _ C] exI[of _ E]) (simp add: D)
qed

text \<open>
  C3.  For a symmetric positive definite block-tridiagonal operand with \<open>T \<ge> 1\<close> blocks
  of size \<open>d \<ge> 1\<close>, the block factorisation succeeds, its diagonal blocks are lower
  triangular with a positive diagonal, and the block-bidiagonal factor times its transpose
  is the operand, both expanded to dense \<open>(T d) \<times> (T d)\<close> matrices.  The arithmetic is
  exact, so the tolerance is zero.
\<close>

theorem block_cholesky_reconstructs:
  assumes la: "linalg_ok d la" and d: "0 < d" and ne: "D \<noteq> []"
    and len: "length L + 1 = length D"
    and shapes: "list_all (is_mat d d) (D @ L)"
    and spd: "spd (length D * d) (dense_tridiag d D L)"
  shows "\<exists>C E. blk_tridiag_chol la D L = Inr (C, E)
     \<and> length C = length D \<and> length E = length L
     \<and> list_all (chol_factor d) C \<and> list_all (is_mat d d) E
     \<and> matmul (dense_bidiag d C E) (mat_transpose (dense_bidiag d C E)) = dense_tridiag d D L"
proof -
  from blk_tridiag_chol_factorises[OF assms] obtain C E where
    f: "blk_tridiag_chol la D L = Inr (C, E)"
    and lC: "length C = length D" and lE: "length E = length L"
    and Cf: "list_all (chol_factor d) C" and Em: "list_all (is_mat d d) E"
    and first: "matmul (C ! 0) (mat_transpose (C ! 0)) = D ! 0"
    and step: "\<forall>t<length E.
             matmul (E ! t) (mat_transpose (C ! t)) = L ! t
           \<and> mat_add (matmul (C ! Suc t) (mat_transpose (C ! Suc t)))
                (matmul (E ! t) (mat_transpose (E ! t))) = D ! Suc t"
    by blast
  have Cm: "list_all (is_mat d d) C"
    using Cf by (simp add: list_all_length chol_factor_def)
  have lenCE: "length E + 1 = length C" using lC lE len by simp
  have "matmul (dense_bidiag d C E) (mat_transpose (dense_bidiag d C E)) = dense_tridiag d D L"
    by (rule bidiag_gram_tridiag[OF Cm Em lenCE lC[symmetric] first step])
  then show ?thesis using f lC lE Cf Em by blast
qed


lemma spd_example: "spd 2 [[4, - 6], [- 6, 18]]"
  unfolding spd_def
proof (intro conjI)
  show "is_mat 2 2 [[4, - 6], [- 6, 18::real]]" by (simp add: is_mat_def)
  show "mat_transpose [[4, - 6], [- 6, 18::real]] = [[4, - 6], [- 6, 18]]"
    by (simp add: mat_transpose_def eval_nat_numeral)
  show "pos_def 2 [[4, - 6], [- 6, 18]]"
    unfolding pos_def_def
  proof (intro allI impI)
    fix x :: vec assume x: "length x = 2 \<and> x \<noteq> replicate 2 0"
    then obtain a b where ab: "x = [a, b]"
      by (cases x; cases "tl x") auto
    with x have nz: "a \<noteq> 0 \<or> b \<noteq> 0" by (auto simp: eval_nat_numeral)
    have "dot x (matvec [[4, - 6], [- 6, 18]] x) = (2 * a - 3 * b)\<^sup>2 + (3 * b)\<^sup>2"
      by (simp add: ab dot_def matvec_def power2_eq_square algebra_simps)
    moreover have "2 * a - 3 * b \<noteq> 0 \<or> 3 * b \<noteq> 0" using nz by auto
    then have "0 < (2 * a - 3 * b)\<^sup>2 + (3 * b)\<^sup>2"
      by (simp only: sum_power2_gt_zero_iff)
    ultimately show "0 < dot x (matvec [[4, - 6], [- 6, 18]] x)"
      by (simp only:)
  qed
qed

lemma dense_example: "dense_tridiag 1 [[[4]], [[18]]] [[[- 6]]] = [[4, - 6], [- 6, 18]]"
  by (simp add: dense_tridiag_def dense_def tri_block_def mat_transpose_def eval_nat_numeral)

theorem block_cholesky_reconstructs_witness:
  "blk_tridiag_chol scalar_linalg [[[4]], [[18]]] [[[- 6]]] = Inr ([[[2]], [[3]]], [[[- 3]]])
   \<and> dense_bidiag 1 [[[2]], [[3]]] [[[- 3]]] = [[2, 0], [- 3, 3]]
   \<and> matmul (dense_bidiag 1 [[[2]], [[3]]] [[[- 3]]])
        (mat_transpose (dense_bidiag 1 [[[2]], [[3]]] [[[- 3]]]))
      = dense_tridiag 1 [[[4]], [[18]]] [[[- 6]]]"
proof -
  have ev: "blk_tridiag_chol scalar_linalg [[[4]], [[18]]] [[[- 6]]]
      = Inr ([[[2]], [[3]]], [[[- 3]]])"
    by (simp add: eval_defs sqrt_9)
  have l: "length [[[4]], [[18::real]]] * 1 = 2" by simp
  have spd: "spd (length [[[4]], [[18::real]]] * 1) (dense_tridiag 1 [[[4]], [[18]]] [[[- 6]]])"
    using spd_example by (simp only: l dense_example)
  have "\<exists>C E. blk_tridiag_chol scalar_linalg [[[4]], [[18]]] [[[- 6]]] = Inr (C, E)
     \<and> length C = length [[[4]], [[18::real]]] \<and> length E = length [[[- 6::real]]]
     \<and> list_all (chol_factor 1) C \<and> list_all (is_mat 1 1) E
     \<and> matmul (dense_bidiag 1 C E) (mat_transpose (dense_bidiag 1 C E))
         = dense_tridiag 1 [[[4]], [[18]]] [[[- 6]]]"
    by (rule block_cholesky_reconstructs[OF scalar_linalg_ok _ _ _ _ spd])
       (simp_all add: is_mat_def)
  then have "matmul (dense_bidiag 1 [[[2]], [[3]]] [[[- 3]]])
        (mat_transpose (dense_bidiag 1 [[[2]], [[3]]] [[[- 3]]]))
      = dense_tridiag 1 [[[4]], [[18]]] [[[- 6]]]"
    by (auto simp: ev)
  moreover have "dense_bidiag 1 [[[2]], [[3]]] [[[- 3]]] = [[2, 0], [- 3, 3]]"
    by (simp add: dense_bidiag_def dense_def bi_block_def zero_mat_def eval_nat_numeral)
  ultimately show ?thesis using ev by simp
qed

section \<open>The identity matrix and the inverse of a positive definite matrix\<close>

lemma eye_mat: "is_mat n n (eye n)"
  by (simp add: eye_def is_mat_def list_all_length)

lemma eye_nth: "i < n \<Longrightarrow> j < n \<Longrightarrow> eye n ! i ! j = (if i = j then 1 else 0)"
  by (simp add: eye_def)

lemma matvec_eye: "length x = n \<Longrightarrow> matvec (eye n) x = x"
proof (rule vec_eqI[of _ n])
  assume x: "length x = n"
  show "length (matvec (eye n) x) = n" by (rule matvec_length[OF eye_mat])
  show "length x = n" by (rule x)
  fix i assume i: "i < n"
  have "matvec (eye n) x ! i = (\<Sum>k<n. (if i = k then 1 else 0) * x ! k)"
    using i by (simp add: matvec_nth[OF eye_mat x] eye_nth)
  also have "\<dots> = (\<Sum>k<n. if k = i then x ! k else 0)"
    by (intro sum.cong refl) auto
  also have "\<dots> = x ! i" using i by simp
  finally show "matvec (eye n) x ! i = x ! i" .
qed

lemma transpose_eye: "mat_transpose (eye n) = eye n"
  by (rule mat_eqI[of n n])
     (auto simp: transpose_mat[OF eye_mat] eye_mat transpose_nth[OF eye_mat] eye_nth)

lemma matmul_eye_left: "is_mat n n X \<Longrightarrow> matmul (eye n) X = X"
proof (rule mat_eqI[of n n])
  assume X: "is_mat n n X"
  show "is_mat n n (matmul (eye n) X)" by (rule matmul_mat[OF eye_mat X])
  show "is_mat n n X" by (rule X)
  fix i j assume i: "i < n" and j: "j < n"
  have "matmul (eye n) X ! i ! j = (\<Sum>k<n. (if i = k then 1 else 0) * X ! k ! j)"
    using i j by (simp add: matmul_nth[OF eye_mat X] eye_nth)
  also have "\<dots> = (\<Sum>k<n. if k = i then X ! k ! j else 0)"
    by (intro sum.cong refl) auto
  also have "\<dots> = X ! i ! j" using i by simp
  finally show "matmul (eye n) X ! i ! j = X ! i ! j" .
qed

lemma matmul_eye_right: "is_mat n n X \<Longrightarrow> matmul X (eye n) = X"
proof (rule mat_eqI[of n n])
  assume X: "is_mat n n X"
  show "is_mat n n (matmul X (eye n))" by (rule matmul_mat[OF X eye_mat])
  show "is_mat n n X" by (rule X)
  fix i j assume i: "i < n" and j: "j < n"
  have "matmul X (eye n) ! i ! j = (\<Sum>k<n. X ! i ! k * (if k = j then 1 else 0))"
    using i j by (simp add: matmul_nth[OF X eye_mat] eye_nth)
  also have "\<dots> = (\<Sum>k<n. if k = j then X ! i ! k else 0)"
    by (intro sum.cong refl) auto
  also have "\<dots> = X ! i ! j" using j by simp
  finally show "matmul X (eye n) ! i ! j = X ! i ! j" .
qed

lemma matmul_assoc:
  assumes X: "is_mat n n X" and Y: "is_mat n n Y" and Z: "is_mat n n Z"
  shows "matmul (matmul X Y) Z = matmul X (matmul Y Z)"
proof (rule mat_eqI[of n n])
  note XY = matmul_mat[OF X Y] and YZ = matmul_mat[OF Y Z]
  show "is_mat n n (matmul (matmul X Y) Z)" by (rule matmul_mat[OF XY Z])
  show "is_mat n n (matmul X (matmul Y Z))" by (rule matmul_mat[OF X YZ])
  fix i j assume i: "i < n" and j: "j < n"
  have "matmul (matmul X Y) Z ! i ! j = (\<Sum>k<n. (\<Sum>l<n. X ! i ! l * Y ! l ! k) * Z ! k ! j)"
    using i j by (simp add: matmul_nth[OF XY Z] matmul_nth[OF X Y])
  also have "\<dots> = (\<Sum>k<n. \<Sum>l<n. X ! i ! l * (Y ! l ! k * Z ! k ! j))"
    by (simp add: sum_distrib_right mult.assoc)
  also have "\<dots> = (\<Sum>l<n. \<Sum>k<n. X ! i ! l * (Y ! l ! k * Z ! k ! j))"
    by (rule sum.swap)
  also have "\<dots> = (\<Sum>l<n. X ! i ! l * matmul Y Z ! l ! j)"
    using j by (simp add: matmul_nth[OF Y Z] sum_distrib_left)
  also have "\<dots> = matmul X (matmul Y Z) ! i ! j"
    using i j by (simp add: matmul_nth[OF X YZ])
  finally show "matmul (matmul X Y) Z ! i ! j = matmul X (matmul Y Z) ! i ! j" .
qed

lemma pos_def_nonneg:
  "pos_def n M \<Longrightarrow> is_mat n n M \<Longrightarrow> length x = n \<Longrightarrow> 0 \<le> dot x (matvec M x)"
proof (cases "x = replicate n 0")
  case True
  assume "is_mat n n M"
  then show ?thesis using True by (simp add: dot_zero_left matvec_length)
next
  case False
  assume "pos_def n M" "length x = n"
  then show ?thesis using False unfolding pos_def_def by (simp add: less_imp_le)
qed

lemma inverse_spd:
  assumes la: "linalg_ok d la" and M: "spd d M"
  shows "spd d (matrix_inverse la M)"
proof -
  define N where "N = matrix_inverse la M"
  have N: "is_mat d d N" and MN: "matmul M N = eye d" and NM: "matmul N M = eye d"
    using matrix_inverse_ok[OF la M] by (simp_all add: N_def)
  have Mm: "is_mat d d M" and Ms: "mat_transpose M = M" and Mp: "pos_def d M"
    using M by (simp_all add: spd_def)
  note NT = transpose_mat[OF N]
  have "mat_transpose N = matmul (mat_transpose N) (matmul M N)"
    by (simp add: MN matmul_eye_right[OF NT])
  also have "\<dots> = matmul (matmul (mat_transpose N) M) N"
    by (rule matmul_assoc[OF NT Mm N, symmetric])
  also have "matmul (mat_transpose N) M = mat_transpose (matmul M N)"
    using transpose_matmul[OF Mm N] by (simp add: Ms)
  also have "\<dots> = eye d" by (simp add: MN transpose_eye)
  finally have sym: "mat_transpose N = N" by (simp add: matmul_eye_left[OF N])
  have "pos_def d N"
    unfolding pos_def_def
  proof (intro allI impI)
    fix x :: vec assume x: "length x = d \<and> x \<noteq> replicate d 0"
    define y where "y = matvec N x"
    have ly: "length y = d" unfolding y_def by (rule matvec_length[OF N])
    have My: "matvec M y = x"
      using matvec_matmul[OF Mm N, of x] x by (simp add: y_def MN matvec_eye)
    have "y \<noteq> replicate d 0"
    proof
      assume "y = replicate d 0"
      then have "matvec M y = replicate d 0" by (simp add: matvec_zero[OF Mm])
      with My x show False by simp
    qed
    then have "0 < dot y (matvec M y)" using Mp ly unfolding pos_def_def by blast
    also have "dot y (matvec M y) = dot y x" by (simp only: My)
    also have "\<dots> = dot x y" using dot_commute[OF ly, of x] x by simp
    finally show "0 < dot x (matvec N x)" by (simp only: y_def)
  qed
  then show ?thesis using N sym by (simp add: spd_def N_def)
qed

lemma gram_psd: "is_mat d d R \<Longrightarrow> psd d (matmul R (mat_transpose R))"
  unfolding psd_def
  by (simp add: gram_mat gram_symmetric quad_gram dot_self_nonneg)

section \<open>The assembled operand is positive definite\<close>

lemma matvec_mat_neg:
  assumes "is_mat d d X" "length v = d"
  shows "matvec (mat_neg X) v = map uminus (matvec X v)"
  using assms
  by (intro vec_eqI[of _ d])
     (simp_all add: matvec_length[OF mat_neg_mat] matvec_length[OF assms(1)]
        matvec_nth[OF mat_neg_mat] matvec_nth[OF assms(1)] mat_neg_nth sum_negf)

lemma dot_vec_add_right:
  "length u = n \<Longrightarrow> length v = n \<Longrightarrow> length w = n \<Longrightarrow> dot w (vec_add u v) = dot w u + dot w v"
  by (simp add: dot_sum[of _ n] vec_add_length vec_add_nth sum.distrib distrib_left)

lemma quad_mat_add:
  assumes "is_mat d d X" "is_mat d d Y" "length x = d"
  shows "dot x (matvec (mat_add X Y) x) = dot x (matvec X x) + dot x (matvec Y x)"
  by (simp add: matvec_mat_add[OF assms]
        dot_vec_add_right[OF matvec_length[OF assms(1)] matvec_length[OF assms(2)] assms(3)])

lemma completed_square:
  fixes A :: mat
  assumes A: "is_mat d d A" and P: "is_mat d d P" and Ps: "mat_transpose P = P"
    and x: "length x = d" and y: "length y = d"
  defines "u \<equiv> vec_sub x (matvec (mat_transpose A) y)"
  shows "dot x (matvec P x) + 2 * dot y (matvec (matmul (mat_neg A) P) x)
           + dot y (matvec (matmul (matmul A P) (mat_transpose A)) y)
         = dot u (matvec P u)"
proof -
  define w where "w = matvec (mat_transpose A) y"
  note AT = transpose_mat[OF A] and AP = matmul_mat[OF A P]
  have w: "length w = d" unfolding w_def by (rule matvec_length[OF AT])
  have lPx: "length (matvec P x) = d" and lPw: "length (matvec P w) = d"
    by (rule matvec_length[OF P])+
  have u: "u = vec_sub x w" by (simp add: u_def w_def)
  have Pu: "matvec P u = vec_sub (matvec P x) (matvec P w)"
    unfolding u by (rule matvec_vec_sub[OF P x w])
  have xPw: "dot x (matvec P w) = dot w (matvec P x)"
    using dot_matvec_right[OF P w x] dot_commute[OF lPx w] by (simp add: Ps)
  have wPx: "dot w (matvec P x) = dot y (matvec (matmul A P) x)"
  proof -
    have "dot w (matvec P x) = dot y (matvec (mat_transpose (mat_transpose A)) (matvec P x))"
      unfolding w_def by (rule dot_matvec_transpose[OF AT y lPx])
    then show ?thesis by (simp add: transpose_transpose[OF A] matvec_matmul[OF A P x])
  qed
  have wPw: "dot w (matvec P w) = dot y (matvec (matmul (matmul A P) (mat_transpose A)) y)"
  proof -
    have "dot w (matvec P w) = dot y (matvec (mat_transpose (mat_transpose A)) (matvec P w))"
      unfolding w_def[symmetric] using dot_matvec_transpose[OF AT y lPw] by (simp add: w_def)
    also have "\<dots> = dot y (matvec (matmul A P) w)"
      by (simp add: transpose_transpose[OF A] matvec_matmul[OF A P w])
    also have "\<dots> = dot y (matvec (matmul (matmul A P) (mat_transpose A)) y)"
      by (simp add: w_def matvec_matmul[OF AP AT y])
    finally show ?thesis .
  qed
  have neg: "dot y (matvec (matmul (mat_neg A) P) x) = - dot y (matvec (matmul A P) x)"
    by (simp add: matvec_matmul[OF mat_neg_mat[OF A] P x] matvec_matmul[OF A P x]
          matvec_mat_neg[OF A lPx] dot_uminus_right[OF y matvec_length[OF A]])
  have "dot u (matvec P u) = dot x (matvec P u) - dot w (matvec P u)"
    unfolding u by (rule dot_vec_sub_left[OF x w]) (simp add: matvec_length[OF P])
  also have "dot x (matvec P u) = dot x (matvec P x) - dot x (matvec P w)"
    unfolding Pu by (rule dot_vec_sub_right[OF lPx lPw x])
  also have "dot w (matvec P u) = dot w (matvec P x) - dot w (matvec P w)"
    unfolding Pu by (rule dot_vec_sub_right[OF lPx lPw w])
  finally show ?thesis by (simp add: xPw wPx wPw neg)
qed

lemma vec_sub_zero: "length x = d \<Longrightarrow> vec_sub x (replicate d 0) = x"
  by (rule vec_eqI[of _ d]) (simp_all add: vec_sub_length vec_sub_nth)

lemma psd_quad: "psd d c \<Longrightarrow> length x = d \<Longrightarrow> 0 \<le> dot x (matvec c x)"
  by (simp add: psd_def)

lemma chain_quadratic_form:
  fixes A :: mat
  assumes A: "is_mat d d A" and Qi: "spd d Qi"
  shows "spd d P \<Longrightarrow> list_all (psd d) (c # cs)
     \<Longrightarrow> length xs = Suc (length cs) \<Longrightarrow> \<forall>v\<in>set xs. length v = d
     \<Longrightarrow> 0 \<le> tri_quad (chain_diag A Qi P P (c # cs)) (chain_ldiag A Qi P (c # cs)) xs
       \<and> ((\<exists>v\<in>set xs. v \<noteq> replicate d 0)
            \<longrightarrow> 0 < tri_quad (chain_diag A Qi P P (c # cs)) (chain_ldiag A Qi P (c # cs)) xs)"
proof (induction cs arbitrary: P c xs)
  case Nil
  then obtain x where xs: "xs = [x]" by (cases xs) auto
  have x: "length x = d" using Nil.prems(4) xs by simp
  have P: "is_mat d d P" "pos_def d P" using Nil.prems(1) by (simp_all add: spd_def)
  have c: "psd d c" using Nil.prems(2) by simp
  then have cm: "is_mat d d c" by (simp add: psd_def)
  have q: "tri_quad (chain_diag A Qi P P [c]) (chain_ldiag A Qi P [c]) xs
      = dot x (matvec P x) + dot x (matvec c x)"
    by (simp add: xs tri_quad_single quad_mat_add[OF P(1) cm x])
  have "0 \<le> dot x (matvec P x)" by (rule pos_def_nonneg[OF P(2,1) x])
  moreover have "0 \<le> dot x (matvec c x)" by (rule psd_quad[OF c x])
  moreover have "0 < dot x (matvec P x)" if "x \<noteq> replicate d 0"
    using P(2) x that unfolding pos_def_def by blast
  ultimately show ?case unfolding q using xs by auto
next
  case (Cons c1 cs)
  from Cons.prems(3) obtain x y ys where xs: "xs = x # y # ys"
    by (cases xs; cases "tl xs") auto
  have x: "length x = d" and y: "length y = d" using Cons.prems(4) xs by simp_all
  have P: "is_mat d d P" "mat_transpose P = P" "pos_def d P"
    using Cons.prems(1) by (simp_all add: spd_def)
  have Qm: "is_mat d d Qi" using Qi by (simp add: spd_def)
  have c: "psd d c" and c1: "psd d c1" and cs: "list_all (psd d) (c1 # cs)"
    using Cons.prems(2) by simp_all
  have cm: "is_mat d d c" and c1m: "is_mat d d c1" using c c1 by (simp_all add: psd_def)
  define G where "G = matmul (matmul A P) (mat_transpose A)"
  define K where "K = mat_add (matmul (matmul A Qi) (mat_transpose A)) Qi"
  define tail where "tail = chain_diag A Qi Qi K cs"
  define Ls where "Ls = chain_ldiag A Qi Qi (c1 # cs)"
  define u where "u = vec_sub x (matvec (mat_transpose A) y)"
  have Gm: "is_mat d d G"
    unfolding G_def by (intro matmul_mat transpose_mat A P)
  have lu: "length u = d"
    unfolding u_def by (rule vec_sub_length[OF x matvec_length[OF transpose_mat[OF A]]])
  have Dl: "chain_diag A Qi P P (c # c1 # cs) = mat_add P c # mat_add (mat_add G Qi) c1 # tail"
    by (simp add: G_def K_def tail_def)
  have Dl': "chain_diag A Qi Qi Qi (c1 # cs) = mat_add Qi c1 # tail"
    by (simp add: K_def tail_def)
  have Ll: "chain_ldiag A Qi P (c # c1 # cs) = matmul (mat_neg A) P # Ls"
    by (simp add: Ls_def)
  define R where "R = tri_quad (mat_add Qi c1 # tail) Ls (y # ys)"
  have IH: "0 \<le> R \<and> ((\<exists>v\<in>set (y # ys). v \<noteq> replicate d 0) \<longrightarrow> 0 < R)"
    using Cons.IH[OF Qi cs, of "y # ys"] Cons.prems(3,4) xs
    by (simp add: R_def tail_def K_def Ls_def)
  have first: "tri_quad (mat_add (mat_add G Qi) c1 # tail) Ls (y # ys)
      = R + dot y (matvec G y)"
  proof -
    have "dot y (matvec (mat_add (mat_add G Qi) c1) y)
        = dot y (matvec G y) + dot y (matvec Qi y) + dot y (matvec c1 y)"
      by (simp add: quad_mat_add[OF mat_add_mat[OF Gm Qm] c1m y] quad_mat_add[OF Gm Qm y])
    moreover have "dot y (matvec (mat_add Qi c1) y) = dot y (matvec Qi y) + dot y (matvec c1 y)"
      by (rule quad_mat_add[OF Qm c1m y])
    ultimately show ?thesis
      using tri_quad_first_block[of "mat_add (mat_add G Qi) c1" tail Ls y ys "mat_add Qi c1"]
      by (simp add: R_def)
  qed
  have q: "tri_quad (chain_diag A Qi P P (c # c1 # cs)) (chain_ldiag A Qi P (c # c1 # cs)) xs
      = dot x (matvec c x) + dot u (matvec P u) + R"
  proof -
    have "tri_quad (chain_diag A Qi P P (c # c1 # cs)) (chain_ldiag A Qi P (c # c1 # cs)) xs
        = dot x (matvec (mat_add P c) x) + 2 * dot y (matvec (matmul (mat_neg A) P) x)
          + (R + dot y (matvec G y))"
      by (simp only: Dl Ll xs tri_quad_Cons first)
    also have "dot x (matvec (mat_add P c) x) = dot x (matvec P x) + dot x (matvec c x)"
      by (rule quad_mat_add[OF P(1) cm x])
    finally show ?thesis
      using completed_square[OF A P(1,2) x y] by (simp add: G_def u_def)
  qed
  have n1: "0 \<le> dot x (matvec c x)" by (rule psd_quad[OF c x])
  have n2: "0 \<le> dot u (matvec P u)" by (rule pos_def_nonneg[OF P(3,1) lu])
  have strict: "0 < dot x (matvec c x) + dot u (matvec P u) + R"
    if nz: "\<exists>v\<in>set xs. v \<noteq> replicate d 0"
  proof (cases "\<exists>v\<in>set (y # ys). v \<noteq> replicate d 0")
    case True
    then have "0 < R" using IH by blast
    then show ?thesis using n1 n2 by linarith
  next
    case False
    then have y0: "y = replicate d 0" and x0: "x \<noteq> replicate d 0" using nz xs by auto
    have "u = x"
      unfolding u_def y0 by (simp add: matvec_zero[OF transpose_mat[OF A]] vec_sub_zero[OF x])
    then have "0 < dot u (matvec P u)" using P(3) x x0 unfolding pos_def_def by blast
    then show ?thesis using n1 IH by linarith
  qed
  show ?case unfolding q using n1 n2 IH strict by auto
qed

section \<open>Shape and symmetry of the assembled blocks\<close>

lemma congruence_symmetric:
  fixes A :: mat
  assumes A: "is_mat d d A" and P: "is_mat d d P" and Ps: "mat_transpose P = P"
  shows "is_mat d d (matmul (matmul A P) (mat_transpose A))"
    and "mat_transpose (matmul (matmul A P) (mat_transpose A)) = matmul (matmul A P) (mat_transpose A)"
proof -
  note AT = transpose_mat[OF A] and AP = matmul_mat[OF A P]
  show "is_mat d d (matmul (matmul A P) (mat_transpose A))" by (rule matmul_mat[OF AP AT])
  have "mat_transpose (matmul (matmul A P) (mat_transpose A))
      = matmul (mat_transpose (mat_transpose A)) (mat_transpose (matmul A P))"
    by (rule transpose_matmul[OF AP AT])
  also have "\<dots> = matmul A (matmul P (mat_transpose A))"
    by (simp add: transpose_transpose[OF A] transpose_matmul[OF A P] Ps)
  also have "\<dots> = matmul (matmul A P) (mat_transpose A)"
    by (rule matmul_assoc[OF A P AT, symmetric])
  finally show "mat_transpose (matmul (matmul A P) (mat_transpose A))
      = matmul (matmul A P) (mat_transpose A)" .
qed

lemma mat_add_symmetric:
  assumes "is_mat d d X" "mat_transpose X = X" "is_mat d d Y" "mat_transpose Y = Y"
  shows "is_mat d d (mat_add X Y) \<and> mat_transpose (mat_add X Y) = mat_add X Y"
  using assms by (simp add: mat_add_mat transpose_mat_add)

lemma chain_diag_symmetric:
  fixes A :: mat
  assumes A: "is_mat d d A" and Qi: "is_mat d d Qi" "mat_transpose Qi = Qi"
  shows "is_mat d d P \<Longrightarrow> mat_transpose P = P \<Longrightarrow> is_mat d d B \<Longrightarrow> mat_transpose B = B
     \<Longrightarrow> list_all (psd d) cs
     \<Longrightarrow> list_all (\<lambda>D. is_mat d d D \<and> mat_transpose D = D) (chain_diag A Qi P B cs)"
proof (induction cs arbitrary: P B)
  case Nil
  show ?case by simp
next
  case (Cons c cs)
  have c: "is_mat d d c" "mat_transpose c = c" using Cons.prems(5) by (simp_all add: psd_def)
  note G = congruence_symmetric[OF A Cons.prems(1,2)]
  note K = mat_add_symmetric[OF G Qi]
  have "list_all (\<lambda>D. is_mat d d D \<and> mat_transpose D = D)
      (chain_diag A Qi Qi (mat_add (matmul (matmul A P) (mat_transpose A)) Qi) cs)"
    using Cons.IH[OF Qi conjunct1[OF K] conjunct2[OF K]] Cons.prems(5) by simp
  then show ?case using mat_add_symmetric[OF Cons.prems(3,4) c] by simp
qed

lemma chain_diag_length: "length (chain_diag Am Qi P B cs) = length cs"
  by (induction cs arbitrary: P B) simp_all

lemma chain_ldiag_length: "length (chain_ldiag Am Qi P cs) = length cs - 1"
  by (induction Am Qi P cs rule: chain_ldiag.induct) simp_all

lemma chain_ldiag_mat:
  fixes A :: mat
  assumes A: "is_mat d d A" and Qi: "is_mat d d Qi"
  shows "is_mat d d P \<Longrightarrow> list_all (is_mat d d) (chain_ldiag A Qi P cs)"
proof (induction cs arbitrary: P)
  case Nil
  show ?case by simp
next
  case (Cons c cs)
  show ?case
  proof (cases cs)
    case Nil
    then show ?thesis by simp
  next
    case (Cons c' cs')
    then show ?thesis
      using Cons.IH[OF Qi] Cons.prems A by (simp add: matmul_mat mat_neg_mat)
  qed
qed

lemma chain_diag_replicate:
  "chain_diag Am Qi Qi (mat_add (matmul (matmul Am Qi) (mat_transpose Am)) Qi) cs
     = map2 mat_add (replicate (length cs) (mat_add (matmul (matmul Am Qi) (mat_transpose Am)) Qi)) cs"
  by (induction cs) simp_all

lemma chain_ldiag_replicate:
  "chain_ldiag Am Qi Qi (c # cs) = replicate (length cs) (matmul (mat_neg Am) Qi)"
  by (induction cs arbitrary: c) simp_all

lemma assembled_chain_diag:
  assumes "length cb = Suc (Suc n)"
  shows "map2 mat_add ([Q0i, AQ0invA_Qinv Am Q0i Qi] @ replicate n (AQinvA_Qinv Am Qi)) cb
           = chain_diag Am Qi Q0i Q0i cb"
proof -
  from assms obtain c0 c1 cs where cb: "cb = c0 # c1 # cs" and n: "length cs = n"
    by (cases cb; cases "tl cb") auto
  show ?thesis
    by (simp add: cb n chain_diag_replicate AQ0invA_Qinv_def AQinvA_Qinv_def)
qed

lemma assembled_chain_ldiag:
  assumes "length cb = Suc (Suc n)"
  shows "[AQ0inv Am Q0i] @ replicate n (AQinv Am Qi) = chain_ldiag Am Qi Q0i cb"
proof -
  from assms obtain c0 c1 cs where cb: "cb = c0 # c1 # cs" and n: "length cs = n"
    by (cases cb; cases "tl cb") auto
  show ?thesis
    by (simp add: cb n chain_ldiag_replicate AQ0inv_def AQinv_def)
qed

lemma c_psi_inv_psd:
  "list_all (is_mat d d) rb \<Longrightarrow> list_all (psd d) (map (\<lambda>r. matmul r (mat_transpose r)) rb)"
  by (simp add: list_all_length gram_psd)

section \<open>The assembled operand, batch element by batch element\<close>

lemma assembled_operand:
  fixes Am :: mat
  assumes A: "is_mat d d Am" and Q0i: "spd d Q0i" and Qi: "spd d Qi"
    and T: "2 \<le> T" and rb: "length rb = nat T" "list_all (is_mat d d) rb"
  defines "cb \<equiv> map (\<lambda>r. matmul r (mat_transpose r)) rb"
  defines "Db \<equiv> map2 mat_add
      ([Q0i, AQ0invA_Qinv Am Q0i Qi] @ replicate (nat (T - 2)) (AQinvA_Qinv Am Qi)) cb"
  defines "L \<equiv> [AQ0inv Am Q0i] @ replicate (nat (T - 2)) (AQinv Am Qi)"
  shows "length Db = nat T" and "length L + 1 = nat T"
    and "list_all (\<lambda>D. is_mat d d D \<and> mat_transpose D = D) Db"
    and "list_all (is_mat d d) L"
    and "blk_pos_def d Db L"
proof -
  have lcb: "length cb = Suc (Suc (nat (T - 2)))" using rb(1) T by (simp add: cb_def)
  have psd: "list_all (psd d) cb" unfolding cb_def by (rule c_psi_inv_psd[OF rb(2)])
  from lcb obtain c cs where ccs: "cb = c # cs" by (cases cb) auto
  have Db: "Db = chain_diag Am Qi Q0i Q0i cb"
    unfolding Db_def by (rule assembled_chain_diag[OF lcb])
  have L: "L = chain_ldiag Am Qi Q0i cb"
    unfolding L_def by (rule assembled_chain_ldiag[OF lcb])
  have Q0m: "is_mat d d Q0i" "mat_transpose Q0i = Q0i" and Qm: "is_mat d d Qi" "mat_transpose Qi = Qi"
    using Q0i Qi by (simp_all add: spd_def)
  show "length Db = nat T" using lcb T by (simp add: Db chain_diag_length)
  show "length L + 1 = nat T" using lcb T by (simp add: L chain_ldiag_length)
  show "list_all (\<lambda>D. is_mat d d D \<and> mat_transpose D = D) Db"
    unfolding Db by (rule chain_diag_symmetric[OF A Qm Q0m Q0m psd])
  show "list_all (is_mat d d) L"
    unfolding L by (rule chain_ldiag_mat[OF A Qm(1) Q0m(1)])
  show "blk_pos_def d Db L"
    unfolding blk_pos_def_def
  proof (intro allI impI)
    fix xs :: "vec list"
    assume xs: "length xs = length Db \<and> (\<forall>v\<in>set xs. length v = d)
        \<and> (\<exists>v\<in>set xs. v \<noteq> replicate d 0)"
    then have l: "length xs = Suc (length cs)" by (simp add: Db chain_diag_length ccs)
    from chain_quadratic_form[OF A Qi Q0i psd[unfolded ccs] l] xs
    show "0 < tri_quad Db L xs" by (simp add: Db L ccs)
  qed
qed

lemma assembled_dense_spd:
  fixes Am :: mat
  assumes A: "is_mat d d Am" and Q0i: "spd d Q0i" and Qi: "spd d Qi"
    and T: "2 \<le> T" and rb: "length rb = nat T" "list_all (is_mat d d) rb"
  shows "spd (nat T * d)
     (dense_tridiag d
        (map2 mat_add ([Q0i, AQ0invA_Qinv Am Q0i Qi] @ replicate (nat (T - 2)) (AQinvA_Qinv Am Qi))
           (map (\<lambda>r. matmul r (mat_transpose r)) rb))
        ([AQ0inv Am Q0i] @ replicate (nat (T - 2)) (AQinv Am Qi)))"
proof -
  note f = assembled_operand[OF A Q0i Qi T rb]
  let ?D = "map2 mat_add ([Q0i, AQ0invA_Qinv Am Q0i Qi] @ replicate (nat (T - 2)) (AQinvA_Qinv Am Qi))
           (map (\<lambda>r. matmul r (mat_transpose r)) rb)"
  let ?L = "[AQ0inv Am Q0i] @ replicate (nat (T - 2)) (AQinv Am Qi)"
  have len: "length ?L + 1 = length ?D" using f(1,2) by simp
  have Dm: "list_all (is_mat d d) ?D" using f(3) by (simp add: list_all_length)
  have Ds: "\<forall>t<length ?D. is_mat d d (?D ! t) \<and> mat_transpose (?D ! t) = ?D ! t"
    using f(3) by (simp add: list_all_length)
  have "is_mat (length ?D * d) (length ?D * d) (dense_tridiag d ?D ?L)"
    unfolding dense_tridiag_def by (rule dense_mat)
  moreover have "mat_transpose (dense_tridiag d ?D ?L) = dense_tridiag d ?D ?L"
    by (rule dense_tridiag_symmetric[OF Ds f(4) len])
  moreover have "pos_def (length ?D * d) (dense_tridiag d ?D ?L)"
    by (rule blocks_pos_def_dense[OF f(5) Dm f(4) len])
  ultimately show ?thesis unfolding spd_def f(1) by blast
qed

lemma spd_1_iff: "spd (Suc 0) [[x]] \<longleftrightarrow> 0 < x"
proof
  assume "spd (Suc 0) [[x]]"
  then show "0 < x" using spd_1[of x] by simp
next
  assume x: "0 < x"
  have "pos_def (Suc 0) [[x]]"
    unfolding pos_def_def
  proof (intro allI impI)
    fix v :: vec assume v: "length v = Suc 0 \<and> v \<noteq> replicate (Suc 0) 0"
    then obtain a where a: "v = [a]" "a \<noteq> 0" by (cases v) auto
    have "dot v (matvec [[x]] v) = x * a\<^sup>2"
      by (simp add: a dot_def matvec_def power2_eq_square)
    then show "0 < dot v (matvec [[x]] v)" using x a by simp
  qed
  then show "spd (Suc 0) [[x]]"
    by (simp add: spd_def is_mat_def mat_transpose_def)
qed

text \<open>
  C6.  For symmetric positive definite \<open>Q\<close> and \<open>Q0\<close> (with \<open>Qinv\<close>, \<open>Q0inv\<close> their
  inverses), a transition matrix of the right shape, \<open>T \<ge> 2\<close> and any encoder output
  \<open>r_psi_sqrt\<close>, every data-dependent block \<open>c_psi_inv[t] = r_psi_sqrt[t] r_psi_sqrt[t]\<^sup>T\<close> is
  positive semidefinite, the assembly succeeds, and in every batch element the full
  assembled block-tridiagonal precision matrix is symmetric positive definite.
\<close>

theorem assembled_precision_spd:
  assumes la: "linalg_ok d la" and A: "is_mat d d (A vs)"
    and Q0: "spd d (Q0 pr)" and Q: "spd d (Q pr)"
    and inv: "Q0inv pr = matrix_inverse la (Q0 pr)" "Qinv pr = matrix_inverse la (Q pr)"
    and T: "2 \<le> T"
    and shapes: "\<forall>rb\<in>set r_psi_sqrt. length rb = nat T \<and> list_all (is_mat d d) rb"
  shows "(\<forall>cb\<in>set (c_psi_inv r_psi_sqrt). list_all (psd d) cb)
     \<and> (\<exists>D L. Sinv_diag T (A vs) (Q0inv pr) (Qinv pr) (c_psi_inv r_psi_sqrt) = Inr D
            \<and> Sinv_ldiag0 T (A vs) (Q0inv pr) (Qinv pr) = Inr L
            \<and> length D = length r_psi_sqrt
            \<and> (\<forall>b<length r_psi_sqrt. spd (nat T * d) (dense_tridiag d (D ! b) L)))"
proof -
  let ?st = "[Q0inv pr, AQ0invA_Qinv (A vs) (Q0inv pr) (Qinv pr)]
      @ replicate (nat (T - 2)) (AQinvA_Qinv (A vs) (Qinv pr))"
  let ?L = "[AQ0inv (A vs) (Q0inv pr)] @ replicate (nat (T - 2)) (AQinv (A vs) (Qinv pr))"
  let ?D = "map (\<lambda>cb. map2 mat_add ?st cb) (c_psi_inv r_psi_sqrt)"
  have Q0i: "spd d (Q0inv pr)" and Qi: "spd d (Qinv pr)"
    unfolding inv by (rule inverse_spd[OF la Q0], rule inverse_spd[OF la Q])
  have psd: "\<forall>cb\<in>set (c_psi_inv r_psi_sqrt). list_all (psd d) cb"
    using shapes by (auto simp: c_psi_inv_def intro: c_psi_inv_psd)
  have len: "\<forall>cb\<in>set (c_psi_inv r_psi_sqrt). length cb = nat T"
    using shapes by (auto simp: c_psi_inv_def)
  have D: "Sinv_diag T (A vs) (Q0inv pr) (Qinv pr) (c_psi_inv r_psi_sqrt) = Inr ?D"
    by (rule Sinv_diag_eq[OF T len])
  have L: "Sinv_ldiag0 T (A vs) (Q0inv pr) (Qinv pr) = Inr ?L"
    by (rule Sinv_ldiag0_eq[OF T])
  have "spd (nat T * d) (dense_tridiag d (?D ! b) ?L)" if b: "b < length r_psi_sqrt" for b
  proof -
    have rb: "length (r_psi_sqrt ! b) = nat T" "list_all (is_mat d d) (r_psi_sqrt ! b)"
      using shapes b by simp_all
    have "?D ! b = map2 mat_add ?st (map (\<lambda>r. matmul r (mat_transpose r)) (r_psi_sqrt ! b))"
      using b by (simp add: c_psi_inv_def del: append.simps)
    then show ?thesis
      using assembled_dense_spd[OF A Q0i Qi T rb] by (simp only:)
  qed
  moreover have "length ?D = length r_psi_sqrt" by (simp add: c_psi_inv_def)
  ultimately show ?thesis using psd D L by blast
qed

theorem assembled_precision_spd_witness:
  "psd 1 [[1]] \<and> psd 1 [[4]]
   \<and> Sinv_diag 2 [[2]] [[3]] [[2]] (c_psi_inv [[ [[1]], [[2]] ]]) = Inr [[ [[4]], [[18]] ]]
   \<and> Sinv_ldiag0 2 [[2]] [[3]] [[2]] = Inr [[[- 6]]]
   \<and> spd 2 (dense_tridiag 1 [[[4]], [[18]]] [[[- 6]]])"
proof -
  let ?vs = "\<lparr> z0_mean = [[0]], A = [[2]], Q_sqrt = [[1]], Q0_sqrt = [[1]] \<rparr>"
  let ?pr = "\<lparr> Q0 = [[1/3]], Q = [[1/2]], Q0inv = [[3]], Qinv = [[2]] \<rparr>"
  let ?r = "[[ [[1]], [[2::real]] ]]"
  have c: "c_psi_inv ?r = [[ [[1]], [[4]] ]]"
    by (simp add: c_psi_inv_def matmul_def mat_transpose_def dot_def)
  have D: "Sinv_diag 2 [[2]] [[3]] [[2]] (c_psi_inv ?r) = Inr [[ [[4]], [[18]] ]]"
    by (simp add: eval_defs)
  have L: "Sinv_ldiag0 2 [[2]] [[3]] [[2]] = Inr [[[- 6]]]"
    by (simp add: eval_defs)
  have "(\<forall>cb\<in>set (c_psi_inv ?r). list_all (psd 1) cb)
     \<and> (\<exists>D L. Sinv_diag 2 (A ?vs) (Q0inv ?pr) (Qinv ?pr) (c_psi_inv ?r) = Inr D
            \<and> Sinv_ldiag0 2 (A ?vs) (Q0inv ?pr) (Qinv ?pr) = Inr L
            \<and> length D = length ?r
            \<and> (\<forall>b<length ?r. spd (nat 2 * 1) (dense_tridiag 1 (D ! b) L)))"
    by (rule assembled_precision_spd[OF scalar_linalg_ok])
       (simp_all add: is_mat_def spd_1_iff scalar_linalg_def)
  then show ?thesis using D L by (auto simp: c)
qed

section \<open>The block-triangular solves\<close>






section \<open>The posterior mean\<close>

lemma traverse_all:
  "\<forall>x\<in>set xs. \<exists>y. f x = Inr y \<Longrightarrow> traverse f xs = Inr (map (\<lambda>x. projr (f x)) xs)"
  by (rule traverse_map) auto









end
